theory Spec2Isabelle
  imports Main "HOL-Library.Multiset" "HOL-Library.AList"
begin

section \<open>Errors raised by the library\<close>

text \<open>
  Every exception the modelled code can raise is a value.  \<open>IndexError\<close> is what
  \<^verbatim>\<open>DHeap.extract\<close> ("Heap is empty.") and \<^verbatim>\<open>BinaryHeapPriorityQueue.peek\<close>
  ("Priority queue is empty.") raise; \<open>KeyError\<close> is a failed dictionary lookup;
  \<open>ZeroDivisionError\<close> is \<^verbatim>\<open>//\<close> by an arity of zero; \<open>ValueError\<close> is an
  unknown heap property or an edge between vertices that are not in the graph;
  \<open>AttributeError\<close> is \<^verbatim>\<open>__getattribute__\<close> of a name the graph does not have;
  \<open>NotImplementedError\<close> is an unknown algorithm or implementation name;
  \<open>StopIteration\<close> is \<^verbatim>\<open>next\<close> on an empty vertex list.
\<close>

datatype py_error =
  ValueError | IndexError | KeyError | ZeroDivisionError | AttributeError
  | NotImplementedError | StopIteration

section \<open>The D-ary heap (trees/heaps.py)\<close>

text \<open>
  \<^verbatim>\<open>TreeNode(key, data)\<close> of utils/misc_util.py.  The heap only reads and writes
  \<open>key\<close> and \<open>data\<close>; the child-index annotations \<^verbatim>\<open>_leftmost\<close>/\<^verbatim>\<open>_rightmost\<close>
  that \<^verbatim>\<open>_build\<close> and \<^verbatim>\<open>insert\<close> attach to a slot are only read by \<^verbatim>\<open>__str__\<close>
  and are left out.  Keys are values of one type; where the constructor's \<^verbatim>\<open><=\<close> and
  \<^verbatim>\<open>>=\<close> are used, that type is a linear order (the drivers use integers).
\<close>

record ('k, 'v) TreeNode =
  key :: 'k
  data :: 'v

text \<open>
  The slots of \<^verbatim>\<open>DHeap\<close>: \<open>compf\<close> is \<^verbatim>\<open>_comp\<close>, \<open>last_pos_filled\<close> is the heap's own
  \<^verbatim>\<open>_last_pos_filled\<close> counter (an integer, \<open>-1\<close> when empty), \<open>d\<close> is the arity (a
  natural number: a negative arity is outside the model, an arity of zero raises where
  the source divides by it).

  Modelled from the spec: \<^verbatim>\<open>DynamicOneDimensionalArray\<close> (linear_data_structures/arrays.py
  is not among the sources) is the list \<open>heap\<close>: "dense over [0, size); no gaps".  Its
  \<^verbatim>\<open>append\<close> adds one slot at the end, its \<^verbatim>\<open>delete\<close> of the last occupied slot
  "shrinks the backing store by one", and its own \<^verbatim>\<open>_last_pos_filled\<close> is the index of
  the last slot, \<open>length - 1\<close>.  Indices are natural numbers; on the heaps the constructor,
  \<^verbatim>\<open>insert\<close> and \<^verbatim>\<open>extract\<close> produce, every index the loops read is below the length
  (the two counters agree there, see \<open>counters_agree\<close>).
\<close>

record ('k, 'v) DHeap =
  compf :: "'k \<Rightarrow> 'k \<Rightarrow> bool"
  heap :: "('k, 'v) TreeNode list"
  d :: nat
  heap_property :: string
  last_pos_filled :: int

text \<open>
  Modelled from the spec: \<^verbatim>\<open>DynamicOneDimensionalArray.append\<close>,
  \<^verbatim>\<open>DynamicOneDimensionalArray.delete\<close> and the array's \<^verbatim>\<open>_last_pos_filled\<close> (arrays.py is
  missing), on the dense list.
\<close>

definition array_append :: "'a list \<Rightarrow> 'a \<Rightarrow> 'a list" where
  "array_append xs x = xs @ [x]"

definition array_delete :: "'a list \<Rightarrow> nat \<Rightarrow> 'a list" where
  "array_delete xs idx = take idx xs @ drop (Suc idx) xs"

definition array_last_pos_filled :: "'a list \<Rightarrow> int" where
  "array_last_pos_filled xs = int (length xs) - 1"

text \<open>\<^verbatim>\<open>DHeap._swap(idx1, idx2)\<close>: exchanges key and data of the two slots.\<close>

definition heap_swap :: "('k, 'v) TreeNode list \<Rightarrow> nat \<Rightarrow> nat \<Rightarrow> ('k, 'v) TreeNode list" where
  "heap_swap xs idx1 idx2 = xs[idx1 := xs ! idx2, idx2 := xs ! idx1]"

text \<open>Python's \<^verbatim>\<open>range(lo, hi)\<close> for non-negative bounds.\<close>

definition py_range :: "nat \<Rightarrow> nat \<Rightarrow> nat list" where
  "py_range lo hi = [lo ..< hi]"

text \<open>
  The inner \<^verbatim>\<open>for j in range(l, r+1)\<close> of \<^verbatim>\<open>_heapify\<close>: \<open>js\<close> is what is left of the
  range, \<open>target\<close> the running choice.  The scan stops (\<^verbatim>\<open>break\<close>) at the first child
  index beyond \<^verbatim>\<open>_last_pos_filled\<close>.
\<close>

fun heapify_scan ::
  "('k \<Rightarrow> 'k \<Rightarrow> bool) \<Rightarrow> int \<Rightarrow> ('k, 'v) TreeNode list \<Rightarrow> nat list \<Rightarrow> nat \<Rightarrow> nat" where
  "heapify_scan cmp lpf xs [] target = target"
| "heapify_scan cmp lpf xs (j # js) target =
     (if int j \<le> lpf
      then heapify_scan cmp lpf xs js
             (if cmp (key (xs ! j)) (key (xs ! target)) then j else target)
      else target)"

lemma heapify_scan_range:
  "heapify_scan cmp lpf xs js t = t \<or>
   (heapify_scan cmp lpf xs js t \<in> set js \<and> int (heapify_scan cmp lpf xs js t) \<le> lpf)"
proof (induction js arbitrary: t)
  case Nil
  show ?case by simp
next
  case (Cons j js)
  show ?case
  proof (cases "int j \<le> lpf")
    case False
    then show ?thesis by simp
  next
    case True
    let ?t = "if cmp (key (xs ! j)) (key (xs ! t)) then j else t"
    from Cons.IH[of ?t] True show ?thesis by (auto split: if_splits)
  qed
qed

text \<open>
  The \<^verbatim>\<open>while True\<close> loop of \<^verbatim>\<open>_heapify(i)\<close>, on the backing array: \<open>cmp\<close> is
  \<^verbatim>\<open>self._comp\<close>, \<open>a\<close> is \<^verbatim>\<open>self.d\<close>, \<open>lpf\<close> is \<^verbatim>\<open>self._last_pos_filled\<close>.
\<close>

function heapify_loop ::
  "('k \<Rightarrow> 'k \<Rightarrow> bool) \<Rightarrow> nat \<Rightarrow> int \<Rightarrow> ('k, 'v) TreeNode list \<Rightarrow> nat \<Rightarrow> ('k, 'v) TreeNode list" where
  "heapify_loop cmp a lpf xs i =
     (let l = a * i + 1;
          r = a * i + a;
          target = heapify_scan cmp lpf xs (py_range l (r + 1)) i
      in if target \<noteq> i then heapify_loop cmp a lpf (heap_swap xs target i) target
         else xs)"
  by pat_completeness auto
termination
proof (relation "measure (\<lambda>(cmp, a, lpf, xs, i). nat (lpf + 1) - i)")
  show "wf (measure (\<lambda>(cmp, a, lpf, xs, i). nat (lpf + 1) - i))" by simp
next
  fix cmp :: "'k \<Rightarrow> 'k \<Rightarrow> bool" and a :: nat and lpf :: int
    and xs :: "('k, 'v) TreeNode list" and i l r target :: nat
  assume l: "l = a * i + 1" and r: "r = a * i + a"
    and t: "target = heapify_scan cmp lpf xs (py_range l (r + 1)) i" and ne: "target \<noteq> i"
  from heapify_scan_range[of cmp lpf xs "py_range l (r + 1)" i] t ne
  have mem: "target \<in> set (py_range l (r + 1))" and le: "int target \<le> lpf" by blast+
  from mem have lt: "l \<le> target" and tr: "target < r + 1"
    by (simp_all only: py_range_def set_upt atLeastLessThan_iff)
  from lt tr l r have "0 < a" by simp
  then have "i \<le> a * i" by simp
  with l lt le have "i < target" and "target < nat (lpf + 1)" by linarith+
  then show "((cmp, a, lpf, heap_swap xs target i, target), (cmp, a, lpf, xs, i))
      \<in> measure (\<lambda>(cmp, a, lpf, xs, i). nat (lpf + 1) - i)"
    by simp
qed

declare heapify_loop.simps [simp del]

definition DHeap_heapify :: "('k, 'v) DHeap \<Rightarrow> nat \<Rightarrow> ('k, 'v) DHeap" where
  "DHeap_heapify h i =
     h\<lparr>heap := heapify_loop (compf h) (d h) (last_pos_filled h) (heap h) i\<rparr>"

text \<open>
  \<^verbatim>\<open>DHeap._build\<close>: \<^verbatim>\<open>for i in range((self._last_pos_filled + 1)//self.d, -1, -1)\<close>
  calls \<^verbatim>\<open>_heapify(i)\<close>.  The floor division raises for \<open>d = 0\<close>.
\<close>

definition DHeap_build :: "('k, 'v) DHeap \<Rightarrow> py_error + ('k, 'v) DHeap" where
  "DHeap_build h =
     (if d h = 0 then Inl ZeroDivisionError
      else Inr (fold (\<lambda>i h'. DHeap_heapify h' i)
                  (rev [0 ..< nat (last_pos_filled h + 1) div d h + 1]) h))"

text \<open>
  \<^verbatim>\<open>DHeap.__new__(elements, heap_property, d)\<close>.  \<open>None\<close> is \<^verbatim>\<open>elements=None\<close>; a list
  of nodes is the list/tuple/Array case (any other type raises in the source and is
  excluded by the type here).
\<close>

definition DHeap_new ::
  "('k::linorder, 'v) TreeNode list option \<Rightarrow> string \<Rightarrow> nat \<Rightarrow> py_error + ('k, 'v) DHeap" where
  "DHeap_new elements hp a =
     (let elems = (case elements of None \<Rightarrow> [] | Some es \<Rightarrow> es)
      in if hp = ''min''
         then DHeap_build \<lparr>compf = (\<lambda>key_parent key_child. key_parent \<le> key_child),
                heap = elems, d = a, heap_property = hp,
                last_pos_filled = array_last_pos_filled elems\<rparr>
         else if hp = ''max''
         then DHeap_build \<lparr>compf = (\<lambda>key_parent key_child. key_parent \<ge> key_child),
                heap = elems, d = a, heap_property = hp,
                last_pos_filled = array_last_pos_filled elems\<rparr>
         else Inl ValueError)"

text \<open>\<^verbatim>\<open>BinaryHeap.__new__(elements, heap_property)\<close> is a \<^verbatim>\<open>DHeap\<close> with \<open>d = 2\<close>.\<close>

definition BinaryHeap_new ::
  "('k::linorder, 'v) TreeNode list option \<Rightarrow> string \<Rightarrow> py_error + ('k, 'v) DHeap" where
  "BinaryHeap_new elements hp = DHeap_new elements hp 2"

text \<open>
  The \<^verbatim>\<open>while True\<close> loop of \<^verbatim>\<open>insert\<close>.  \<^verbatim>\<open>parent = (i - 1)//self.d\<close> is computed
  before the test \<^verbatim>\<open>i == 0 or ...\<close>; at \<open>i = 0\<close> its value is not used.
\<close>

function insert_loop ::
  "('k \<Rightarrow> 'k \<Rightarrow> bool) \<Rightarrow> nat \<Rightarrow> ('k, 'v) TreeNode list \<Rightarrow> nat \<Rightarrow> ('k, 'v) TreeNode list" where
  "insert_loop cmp a xs i =
     (let parent = (i - 1) div a
      in if i = 0 \<or> cmp (key (xs ! parent)) (key (xs ! i)) then xs
         else insert_loop cmp a (heap_swap xs i parent) parent)"
  by pat_completeness auto
termination
proof (relation "measure (\<lambda>(cmp, a, xs, i). i)")
  show "wf (measure (\<lambda>(cmp, a, xs, i). i))" by simp
next
  fix cmp :: "'k \<Rightarrow> 'k \<Rightarrow> bool" and a :: nat
    and xs :: "('k, 'v) TreeNode list" and i parent :: nat
  assume p: "parent = (i - 1) div a"
    and c: "\<not> (i = 0 \<or> cmp (key (xs ! parent)) (key (xs ! i)))"
  from c have "0 < i" by simp
  moreover have "(i - 1) div a \<le> i - 1" by (rule div_le_dividend)
  ultimately have "parent < i" using p by linarith
  then show "((cmp, a, heap_swap xs i parent, parent), (cmp, a, xs, i))
      \<in> measure (\<lambda>(cmp, a, xs, i). i)"
    by simp
qed

declare insert_loop.simps [simp del]

text \<open>
  \<^verbatim>\<open>DHeap.insert(key, data)\<close>.  With \<open>d = 0\<close> the first \<^verbatim>\<open>(i - 1)//self.d\<close> raises
  (after the append).
\<close>

definition DHeap_insert :: "('k, 'v) DHeap \<Rightarrow> 'k \<Rightarrow> 'v \<Rightarrow> py_error + ('k, 'v) DHeap" where
  "DHeap_insert h k v =
     (let new_node = \<lparr>key = k, data = v\<rparr>;
          h1 = h\<lparr>heap := array_append (heap h) new_node,
                 last_pos_filled := last_pos_filled h + 1\<rparr>;
          i = nat (last_pos_filled h1)
      in if d h1 = 0 then Inl ZeroDivisionError
         else Inr (h1\<lparr>heap := insert_loop (compf h1) (d h1) (heap h1) i\<rparr>))"

text \<open>\<^verbatim>\<open>DHeap.extract()\<close>: the extracted node and the heap after the call.\<close>

definition DHeap_extract ::
  "('k, 'v) DHeap \<Rightarrow> py_error + (('k, 'v) TreeNode \<times> ('k, 'v) DHeap)" where
  "DHeap_extract h =
     (if last_pos_filled h = - 1 then Inl IndexError
      else
        let element_to_be_extracted = \<lparr>key = key (heap h ! 0), data = data (heap h ! 0)\<rparr>;
            xs1 = heap_swap (heap h) 0 (nat (last_pos_filled h));
            xs2 = array_delete xs1 (nat (last_pos_filled h));
            h1 = h\<lparr>heap := xs2, last_pos_filled := last_pos_filled h - 1\<rparr>
        in Inr (element_to_be_extracted, DHeap_heapify h1 0))"

text \<open>\<^verbatim>\<open>DHeap.is_empty\<close> reads the backing array's counter.\<close>

definition DHeap_is_empty :: "('k, 'v) DHeap \<Rightarrow> bool" where
  "DHeap_is_empty h = (array_last_pos_filled (heap h) = - 1)"


section \<open>The priority queue (miscellaneous_data_structures/queue.py)\<close>

record ('k, 'v) BinaryHeapPriorityQueue =
  items :: "('k, 'v) DHeap"

text \<open>
  \<^verbatim>\<open>BinaryHeapPriorityQueue.__new__(comp)\<close>: a \<^verbatim>\<open>BinaryHeap()\<close> (no elements, property
  \<^verbatim>\<open>"min"\<close>) whose \<^verbatim>\<open>_comp\<close> is then overwritten by \<open>cmp\<close>.
\<close>

definition BinaryHeapPriorityQueue_new ::
  "('k::linorder \<Rightarrow> 'k \<Rightarrow> bool) \<Rightarrow> py_error + ('k, 'v) BinaryHeapPriorityQueue" where
  "BinaryHeapPriorityQueue_new cmp =
     (case BinaryHeap_new None ''min'' of
        Inl err \<Rightarrow> Inl err
      | Inr h \<Rightarrow> Inr \<lparr>items = h\<lparr>compf := cmp\<rparr>\<rparr>)"

text \<open>
  \<^verbatim>\<open>PriorityQueue.__new__(implementation, **kwargs)\<close>: \<open>None\<close> for the comparator is the
  default \<^verbatim>\<open>lambda u, v: u < v\<close>.
\<close>

definition PriorityQueue_new ::
  "string \<Rightarrow> ('k::linorder \<Rightarrow> 'k \<Rightarrow> bool) option
     \<Rightarrow> py_error + ('k, 'v) BinaryHeapPriorityQueue" where
  "PriorityQueue_new implementation comp_kw =
     (let cmp = (case comp_kw of None \<Rightarrow> (\<lambda>u v. u < v) | Some c \<Rightarrow> c)
      in if implementation = ''binary_heap'' then BinaryHeapPriorityQueue_new cmp
         else Inl NotImplementedError)"

definition push ::
  "('k, 'v) BinaryHeapPriorityQueue \<Rightarrow> 'v \<Rightarrow> 'k \<Rightarrow> py_error + ('k, 'v) BinaryHeapPriorityQueue" where
  "push pq val priority =
     (case DHeap_insert (items pq) priority val of
        Inl err \<Rightarrow> Inl err
      | Inr h \<Rightarrow> Inr (pq\<lparr>items := h\<rparr>))"

definition pop ::
  "('k, 'v) BinaryHeapPriorityQueue \<Rightarrow> py_error + ('v \<times> ('k, 'v) BinaryHeapPriorityQueue)" where
  "pop pq =
     (case DHeap_extract (items pq) of
        Inl err \<Rightarrow> Inl err
      | Inr (node, h) \<Rightarrow> Inr (data node, pq\<lparr>items := h\<rparr>))"

definition peek :: "('k, 'v) BinaryHeapPriorityQueue \<Rightarrow> py_error + ('k, 'v) TreeNode" where
  "peek pq = (if DHeap_is_empty (items pq) then Inl IndexError else Inr (heap (items pq) ! 0))"

definition is_empty :: "('k, 'v) BinaryHeapPriorityQueue \<Rightarrow> bool" where
  "is_empty pq = DHeap_is_empty (items pq)"

section \<open>Graphs\<close>

text \<open>
  \<^verbatim>\<open>AdjacencyListGraphNode\<close> and \<^verbatim>\<open>GraphEdge\<close> of utils/misc_util.py.  A node is
  identified by its name; \<open>adjacent\<close> is its list of adjacent node names (the per-neighbour
  attributes the source sets alongside are the same names).  An edge refers to its two
  end nodes by name.
\<close>

record AdjacencyListGraphNode =
  node_name :: string
  adjacent :: "string list"

record GraphEdge =
  edge_source :: string
  edge_target :: string
  edge_value :: int

text \<open>
  \<^verbatim>\<open>AdjacencyListGraphNode.add_adjacent_node(name)\<close>: \<^verbatim>\<open>hasattr(self, name)\<close> is
  membership of the name in the adjacency list; the branch that only overwrites the
  neighbour's \<^verbatim>\<open>data\<close> leaves the adjacency as it is.
\<close>

definition add_adjacent_node :: "AdjacencyListGraphNode \<Rightarrow> string \<Rightarrow> AdjacencyListGraphNode" where
  "add_adjacent_node node nm =
     (if nm \<in> set (adjacent node) then node
      else node\<lparr>adjacent := adjacent node @ [nm]\<rparr>)"

text \<open>A Python \<^verbatim>\<open>dict\<close>: an association list in insertion order, updated with
  \<^const>\<open>AList.update\<close> (an existing key keeps its place, a new key goes last).\<close>

type_synonym ('a, 'b) dict = "('a \<times> 'b) list"

definition dict_get :: "('a, 'b) dict \<Rightarrow> 'a \<Rightarrow> py_error + 'b" where
  "dict_get m k = (case map_of m k of None \<Rightarrow> Inl KeyError | Some v \<Rightarrow> Inr v)"

text \<open>
  Modelled from the spec: the adjacency-list \<^verbatim>\<open>Graph\<close> container (graphs/graph.py is not
  among the sources), by the capability contract of the spec's section 6 and the calls
  the algorithms make: \<open>vertices\<close> is the sequence of vertex names, \<open>graph_nodes\<close> the
  name-to-node attribute table behind \<^verbatim>\<open>hasattr\<close>/\<^verbatim>\<open>__getattribute__\<close>,
  \<open>edge_weights\<close> the dictionary from \<^verbatim>\<open>source + '_' + target\<close> to the directed edge,
  \<open>impl\<close> the implementation tag \<^verbatim>\<open>_impl\<close>.
\<close>

record Graph =
  vertices :: "string list"
  graph_nodes :: "(string, AdjacencyListGraphNode) dict"
  edge_weights :: "(string, GraphEdge) dict"
  impl :: string

text \<open>
  Modelled from the spec: the operations of the missing \<^verbatim>\<open>Graph\<close> class that the algorithms
  and the drivers call.  \<open>Graph_new\<close> is \<^verbatim>\<open>Graph(*nodes)\<close>; \<open>Graph_hasattr\<close> and
  \<open>Graph_getattribute\<close> are \<^verbatim>\<open>hasattr(graph, name)\<close> and \<^verbatim>\<open>graph.__getattribute__(name)\<close>
  on vertex names ("explicit set/map membership tests over vertex identifiers");
  \<open>neighbors\<close> is the sequence of nodes reachable by one directed edge; \<open>add_vertex\<close> and
  \<open>add_edge\<close> are the mutators \<^verbatim>\<open>addVertex\<close> and \<^verbatim>\<open>addEdge(from, to, weight)\<close>, the latter
  refusing an end that is not in the graph.
\<close>

definition Graph_new :: "AdjacencyListGraphNode list \<Rightarrow> Graph" where
  "Graph_new ns =
     \<lparr>vertices = map node_name ns,
      graph_nodes = fold (\<lambda>n m. AList.update (node_name n) n m) ns [],
      edge_weights = [],
      impl = ''adjacency_list''\<rparr>"

definition Graph_hasattr :: "Graph \<Rightarrow> string \<Rightarrow> bool" where
  "Graph_hasattr g v = (map_of (graph_nodes g) v \<noteq> None)"

definition Graph_getattribute :: "Graph \<Rightarrow> string \<Rightarrow> py_error + AdjacencyListGraphNode" where
  "Graph_getattribute g v =
     (case map_of (graph_nodes g) v of None \<Rightarrow> Inl AttributeError | Some n \<Rightarrow> Inr n)"

fun getattribute_all :: "Graph \<Rightarrow> string list \<Rightarrow> py_error + AdjacencyListGraphNode list" where
  "getattribute_all g [] = Inr []"
| "getattribute_all g (nm # nms) =
     (case Graph_getattribute g nm of
        Inl err \<Rightarrow> Inl err
      | Inr n \<Rightarrow> (case getattribute_all g nms of
                    Inl err \<Rightarrow> Inl err
                  | Inr ns \<Rightarrow> Inr (n # ns)))"

definition neighbors :: "Graph \<Rightarrow> string \<Rightarrow> py_error + AdjacencyListGraphNode list" where
  "neighbors g v =
     (case Graph_getattribute g v of
        Inl err \<Rightarrow> Inl err
      | Inr n \<Rightarrow> getattribute_all g (adjacent n))"

definition add_vertex :: "Graph \<Rightarrow> AdjacencyListGraphNode \<Rightarrow> Graph" where
  "add_vertex g n =
     g\<lparr>vertices := vertices g @ [node_name n],
       graph_nodes := AList.update (node_name n) n (graph_nodes g)\<rparr>"

definition add_edge :: "Graph \<Rightarrow> string \<Rightarrow> string \<Rightarrow> int \<Rightarrow> py_error + Graph" where
  "add_edge g src tgt cost =
     (case map_of (graph_nodes g) src of
        None \<Rightarrow> Inl ValueError
      | Some s \<Rightarrow>
          (case map_of (graph_nodes g) tgt of
             None \<Rightarrow> Inl ValueError
           | Some t \<Rightarrow>
               Inr (g\<lparr>graph_nodes :=
                        AList.update src (add_adjacent_node s (node_name t)) (graph_nodes g),
                      edge_weights :=
                        AList.update (node_name s @ ''_'' @ node_name t)
                          \<lparr>edge_source = node_name s, edge_target = node_name t,
                           edge_value = cost\<rparr>
                          (edge_weights g)\<rparr>)))"

section \<open>Shortest paths and minimum spanning tree (graphs/algorithms.py)\<close>

text \<open>
  The numbers Dijkstra stores: a Python \<^verbatim>\<open>int\<close>, or \<^verbatim>\<open>float('inf')\<close>.  Python compares
  an \<^verbatim>\<open>int\<close> with the float infinity exactly, and \<^verbatim>\<open>inf + w\<close> is \<^verbatim>\<open>inf\<close>.
\<close>

datatype pynum = Fin int | PInf

instantiation pynum :: linorder
begin

fun less_eq_pynum :: "pynum \<Rightarrow> pynum \<Rightarrow> bool" where
  "less_eq_pynum (Fin x) (Fin y) = (x \<le> y)"
| "less_eq_pynum (Fin x) PInf = True"
| "less_eq_pynum PInf (Fin y) = False"
| "less_eq_pynum PInf PInf = True"

definition less_pynum :: "pynum \<Rightarrow> pynum \<Rightarrow> bool" where
  "less_pynum x y = (x \<le> y \<and> \<not> y \<le> x)"

instance
proof
  fix x y z :: pynum
  show "(x < y) = (x \<le> y \<and> \<not> y \<le> x)" by (rule less_pynum_def)
  show "x \<le> x" by (cases x) simp_all
  show "x \<le> y \<Longrightarrow> y \<le> z \<Longrightarrow> x \<le> z" by (cases x; cases y; cases z) simp_all
  show "x \<le> y \<Longrightarrow> y \<le> x \<Longrightarrow> x = y" by (cases x; cases y) simp_all
  show "x \<le> y \<or> y \<le> x" by (cases x; cases y) auto
qed

end

fun pynum_add :: "pynum \<Rightarrow> int \<Rightarrow> pynum" where
  "pynum_add (Fin x) w = Fin (x + w)"
| "pynum_add PInf w = PInf"

record dijkstra_state =
  dj_visited :: "(string, bool) dict"
  dj_dist :: "(string, pynum) dict"
  dj_pred :: "(string, string option) dict"
  dj_pq :: "(pynum, string) BinaryHeapPriorityQueue"

text \<open>\<^verbatim>\<open>for vertex in dist: pq.push(vertex, dist[vertex])\<close>, over the items of \<^verbatim>\<open>dist\<close>.\<close>

fun push_all ::
  "('k, 'v) BinaryHeapPriorityQueue \<Rightarrow> ('v, 'k) dict \<Rightarrow> py_error + ('k, 'v) BinaryHeapPriorityQueue" where
  "push_all pq [] = Inr pq"
| "push_all pq ((vertex, dv) # rest) =
     (case push pq vertex dv of
        Inl err \<Rightarrow> Inl err
      | Inr pq' \<Rightarrow> push_all pq' rest)"

text \<open>
  The body of \<^verbatim>\<open>for v in graph.vertices\<close> inside the main loop: the four conjuncts of the
  \<^verbatim>\<open>if\<close> are evaluated left to right and short-circuit; the three assignments follow.
\<close>

definition dijkstra_relax ::
  "Graph \<Rightarrow> string \<Rightarrow> dijkstra_state \<Rightarrow> string \<Rightarrow> py_error + dijkstra_state" where
  "dijkstra_relax graph u st v =
     (let edge_str = u @ ''_'' @ v
      in case map_of (edge_weights graph) edge_str of
           None \<Rightarrow> Inr st
         | Some edge \<Rightarrow>
             if \<not> edge_value edge > 0 then Inr st
             else
               (case dict_get (dj_visited st) v of
                  Inl err \<Rightarrow> Inl err
                | Inr vis \<Rightarrow>
                    if vis \<noteq> False then Inr st
                    else
                      (case dict_get (dj_dist st) v of
                         Inl err \<Rightarrow> Inl err
                       | Inr dv \<Rightarrow>
                           (case dict_get (dj_dist st) u of
                              Inl err \<Rightarrow> Inl err
                            | Inr du \<Rightarrow>
                                if \<not> dv > pynum_add du (edge_value edge) then Inr st
                                else
                                  (let new_dist = pynum_add du (edge_value edge)
                                   in case push (dj_pq st) v new_dist of
                                        Inl err \<Rightarrow> Inl err
                                      | Inr pq' \<Rightarrow>
                                          Inr (st\<lparr>dj_dist := AList.update v new_dist (dj_dist st),
                                                  dj_pred := AList.update v (Some u) (dj_pred st),
                                                  dj_pq := pq'\<rparr>))))))"

fun dijkstra_relax_all ::
  "Graph \<Rightarrow> string \<Rightarrow> dijkstra_state \<Rightarrow> string list \<Rightarrow> py_error + dijkstra_state" where
  "dijkstra_relax_all graph u st [] = Inr st"
| "dijkstra_relax_all graph u st (v # vs) =
     (case dijkstra_relax graph u st v of
        Inl err \<Rightarrow> Inl err
      | Inr st' \<Rightarrow> dijkstra_relax_all graph u st' vs)"

text \<open>\<^verbatim>\<open>for _ in range(V)\<close>: the number of iterations left is the third argument.\<close>

fun dijkstra_main :: "Graph \<Rightarrow> dijkstra_state \<Rightarrow> nat \<Rightarrow> py_error + dijkstra_state" where
  "dijkstra_main graph st 0 = Inr st"
| "dijkstra_main graph st (Suc n) =
     (case pop (dj_pq st) of
        Inl err \<Rightarrow> Inl err
      | Inr (u, pq') \<Rightarrow>
          (case dijkstra_relax_all graph u
                  (st\<lparr>dj_pq := pq', dj_visited := AList.update u True (dj_visited st)\<rparr>)
                  (vertices graph) of
             Inl err \<Rightarrow> Inl err
           | Inr st' \<Rightarrow> dijkstra_main graph st' n))"

datatype dijkstra_result =
  TargetDistance pynum "(string, string option) dict"
  | AllDistances "(string, pynum) dict" "(string, string option) dict"

definition dijkstra_adjacency_list :: "Graph \<Rightarrow> string \<Rightarrow> string \<Rightarrow> py_error + dijkstra_result" where
  "dijkstra_adjacency_list graph start target =
     (let V = length (vertices graph);
          visited = fold (\<lambda>v m. AList.update v False m) (vertices graph) [];
          pred = fold (\<lambda>v m. AList.update v None m) (vertices graph) [];
          dist = fold (\<lambda>v m. if v \<noteq> start then AList.update v PInf m else m) (vertices graph) [];
          dist = AList.update start (Fin 0) dist
      in case PriorityQueue_new ''binary_heap'' None of
           Inl err \<Rightarrow> Inl err
         | Inr pq0 \<Rightarrow>
             (case push_all pq0 dist of
                Inl err \<Rightarrow> Inl err
              | Inr pq \<Rightarrow>
                  (case dijkstra_main graph
                          \<lparr>dj_visited = visited, dj_dist = dist, dj_pred = pred, dj_pq = pq\<rparr> V of
                     Inl err \<Rightarrow> Inl err
                   | Inr st \<Rightarrow>
                       if target \<noteq> []
                       then (case dict_get (dj_dist st) target of
                               Inl err \<Rightarrow> Inl err
                             | Inr dt \<Rightarrow> Inr (TargetDistance dt (dj_pred st)))
                       else Inr (AllDistances (dj_dist st) (dj_pred st)))))"

text \<open>
  \<^verbatim>\<open>shortest_paths(graph, algorithm, source, target)\<close> looks up the function
  \<^verbatim>\<open>"_" + algorithm + "_" + graph._impl\<close>; the module defines
  \<^verbatim>\<open>_dijkstra_adjacency_list\<close> and its alias \<^verbatim>\<open>_dijkstra_adjacency_matrix\<close>.
\<close>

definition shortest_paths ::
  "Graph \<Rightarrow> string \<Rightarrow> string \<Rightarrow> string \<Rightarrow> py_error + dijkstra_result" where
  "shortest_paths graph algorithm src target =
     (if algorithm = ''dijkstra'' \<and> (impl graph = ''adjacency_list'' \<or> impl graph = ''adjacency_matrix'')
      then dijkstra_adjacency_list graph src target
      else Inl NotImplementedError)"

record prim_state =
  prim_q :: "(int, string) BinaryHeapPriorityQueue"
  prim_e :: "(string, GraphEdge) dict"
  prim_mst :: Graph

text \<open>The body of \<^verbatim>\<open>for w_node in graph.neighbors(v)\<close>.\<close>

definition prim_neighbor ::
  "Graph \<Rightarrow> string \<Rightarrow> prim_state \<Rightarrow> AdjacencyListGraphNode \<Rightarrow> py_error + prim_state" where
  "prim_neighbor graph v st w_node =
     (let w = node_name w_node
      in case dict_get (edge_weights graph) (v @ ''_'' @ w) of
           Inl err \<Rightarrow> Inl err
         | Inr vw \<Rightarrow>
             (case push (prim_q st) w (edge_value vw) of
                Inl err \<Rightarrow> Inl err
              | Inr q' \<Rightarrow>
                  Inr (st\<lparr>prim_q := q',
                          prim_e :=
                            (case map_of (prim_e st) w of
                               None \<Rightarrow> AList.update w vw (prim_e st)
                             | Some ew \<Rightarrow>
                                 if edge_value ew > edge_value vw
                                 then AList.update w vw (prim_e st)
                                 else prim_e st)\<rparr>)))"

fun prim_neighbors ::
  "Graph \<Rightarrow> string \<Rightarrow> prim_state \<Rightarrow> AdjacencyListGraphNode list \<Rightarrow> py_error + prim_state" where
  "prim_neighbors graph v st [] = Inr st"
| "prim_neighbors graph v st (w_node # ws) =
     (case prim_neighbor graph v st w_node of
        Inl err \<Rightarrow> Inl err
      | Inr st' \<Rightarrow> prim_neighbors graph v st' ws)"

text \<open>
  The block under \<^verbatim>\<open>if e.get(v, None) is not None\<close>.  \<^verbatim>\<open>edge.target\<close> is a node object
  in the source; here the edge holds its name and the node is read from the input graph.
\<close>

definition prim_add_best_edge :: "Graph \<Rightarrow> Graph \<Rightarrow> GraphEdge \<Rightarrow> py_error + Graph" where
  "prim_add_best_edge graph mst edge =
     (case Graph_getattribute graph (edge_target edge) of
        Inl err \<Rightarrow> Inl err
      | Inr tnode \<Rightarrow>
          (case add_edge (add_vertex mst tnode) (edge_source edge) (edge_target edge)
                  (edge_value edge) of
             Inl err \<Rightarrow> Inl err
           | Inr mst' \<Rightarrow>
               add_edge mst' (edge_target edge) (edge_source edge) (edge_value edge)))"

text \<open>The block under \<^verbatim>\<open>if not hasattr(mst, v)\<close>.\<close>

definition prim_visit :: "Graph \<Rightarrow> string \<Rightarrow> prim_state \<Rightarrow> py_error + prim_state" where
  "prim_visit graph v st =
     (case Graph_getattribute graph v of
        Inl err \<Rightarrow> Inl err
      | Inr vnode \<Rightarrow>
          (case (case map_of (prim_e st) v of
                   None \<Rightarrow> Inr (add_vertex (prim_mst st) vnode)
                 | Some edge \<Rightarrow> prim_add_best_edge graph (add_vertex (prim_mst st) vnode) edge) of
             Inl err \<Rightarrow> Inl err
           | Inr mst' \<Rightarrow>
               (case neighbors graph v of
                  Inl err \<Rightarrow> Inl err
                | Inr ws \<Rightarrow> prim_neighbors graph v (st\<lparr>prim_mst := mst'\<rparr>) ws)))"

text \<open>
  \<^verbatim>\<open>while not q.is_empty\<close>.  The loop is a partial function into \<open>option\<close>: \<open>None\<close> is
  a run that never leaves the loop.
\<close>

partial_function (option) prim_loop :: "Graph \<Rightarrow> prim_state \<Rightarrow> (py_error + Graph) option" where
  "prim_loop graph st =
     (if is_empty (prim_q st) then Some (Inr (prim_mst st))
      else
        (case pop (prim_q st) of
           Inl err \<Rightarrow> Some (Inl err)
         | Inr (v, q') \<Rightarrow>
             if Graph_hasattr (prim_mst st) v then prim_loop graph (st\<lparr>prim_q := q'\<rparr>)
             else
               (case prim_visit graph v (st\<lparr>prim_q := q'\<rparr>) of
                  Inl err \<Rightarrow> Some (Inl err)
                | Inr st' \<Rightarrow> prim_loop graph st')))"

definition minimum_spanning_tree_prim_adjacency_list :: "Graph \<Rightarrow> (py_error + Graph) option" where
  "minimum_spanning_tree_prim_adjacency_list graph =
     (case PriorityQueue_new ''binary_heap'' None of
        Inl err \<Rightarrow> Some (Inl err)
      | Inr q0 \<Rightarrow>
          (case vertices graph of
             [] \<Rightarrow> Some (Inl StopIteration)
           | v0 # _ \<Rightarrow>
               (case push q0 v0 0 of
                  Inl err \<Rightarrow> Some (Inl err)
                | Inr q1 \<Rightarrow>
                    prim_loop graph \<lparr>prim_q = q1, prim_e = [], prim_mst = Graph_new []\<rparr>)))"

text \<open>
  \<^verbatim>\<open>minimum_spanning_tree(graph, algorithm)\<close> looks up
  \<^verbatim>\<open>"_minimum_spanning_tree_" + algorithm + "_" + graph._impl\<close>; the module defines only
  the Prim variant for adjacency lists.
\<close>

definition minimum_spanning_tree :: "Graph \<Rightarrow> string \<Rightarrow> (py_error + Graph) option" where
  "minimum_spanning_tree graph algorithm =
     (if algorithm = ''prim'' \<and> impl graph = ''adjacency_list''
      then minimum_spanning_tree_prim_adjacency_list graph
      else Some (Inl NotImplementedError))"

declare prim_loop.simps [code]

section \<open>Building the graphs of the examples\<close>

text \<open>
  The drivers (minimise_network_delay.py, minimum_random_forest.py) build an undirected
  graph by \<^verbatim>\<open>graph.add_edge(u, v, c); graph.add_edge(v, u, c)\<close> for each input triple.
\<close>

fun add_edge_pairs :: "Graph \<Rightarrow> (string \<times> string \<times> int) list \<Rightarrow> py_error + Graph" where
  "add_edge_pairs g [] = Inr g"
| "add_edge_pairs g ((u, v, c) # es) =
     (case add_edge g u v c of
        Inl err \<Rightarrow> Inl err
      | Inr g1 \<Rightarrow>
          (case add_edge g1 v u c of
             Inl err \<Rightarrow> Inl err
           | Inr g2 \<Rightarrow> add_edge_pairs g2 es))"

text \<open>\<^verbatim>\<open>AdjacencyListGraphNode(name)\<close>: a fresh node without neighbours.\<close>

definition AdjacencyListGraphNode_new :: "string \<Rightarrow> AdjacencyListGraphNode" where
  "AdjacencyListGraphNode_new nm = \<lparr>node_name = nm, adjacent = []\<rparr>"

section \<open>Properties stated about the heap\<close>

text \<open>
  The heap invariant of the data model: for every non-root occupied index \<open>i\<close> with parent
  \<open>(i - 1) div d\<close>, the comparator holds between the parent's key and the key at \<open>i\<close>.
\<close>

definition heap_invariant :: "('k, 'v) DHeap \<Rightarrow> bool" where
  "heap_invariant h \<longleftrightarrow>
     (\<forall>i \<in> {1 ..< length (heap h)}.
        compf h (key (heap h ! ((i - 1) div d h))) (key (heap h ! i)))"

text \<open>The heap's own counter and the counter of its backing array agree.\<close>

definition counters_agree :: "('k, 'v) DHeap \<Rightarrow> bool" where
  "counters_agree h \<longleftrightarrow> last_pos_filled h = array_last_pos_filled (heap h)"

text \<open>
  The heaps a caller can reach from \<open>h0\<close> by any sequence of \<^verbatim>\<open>insert\<close> and
  \<^verbatim>\<open>extract\<close> calls.  A call that raises is not a step: \<^verbatim>\<open>extract\<close> raises before it
  touches the heap.
\<close>

inductive heap_ops_reach :: "('k, 'v) DHeap \<Rightarrow> ('k, 'v) DHeap \<Rightarrow> bool" for h0 where
  reach_start: "heap_ops_reach h0 h0"
| reach_insert: "heap_ops_reach h0 h \<Longrightarrow> DHeap_insert h k v = Inr h' \<Longrightarrow> heap_ops_reach h0 h'"
| reach_extract: "heap_ops_reach h0 h \<Longrightarrow> DHeap_extract h = Inr (n, h') \<Longrightarrow> heap_ops_reach h0 h'"

text \<open>Inserting a list of (key, data) pairs one after the other.\<close>

fun insert_all :: "('k, 'v) DHeap \<Rightarrow> ('k \<times> 'v) list \<Rightarrow> py_error + ('k, 'v) DHeap" where
  "insert_all h [] = Inr h"
| "insert_all h ((k, v) # kvs) =
     (case DHeap_insert h k v of
        Inl err \<Rightarrow> Inl err
      | Inr h' \<Rightarrow> insert_all h' kvs)"

text \<open>Calling \<^verbatim>\<open>extract\<close> \<open>n\<close> times: the extracted nodes in order, and the heap left.\<close>

fun extract_n ::
  "('k, 'v) DHeap \<Rightarrow> nat \<Rightarrow> py_error + (('k, 'v) TreeNode list \<times> ('k, 'v) DHeap)" where
  "extract_n h 0 = Inr ([], h)"
| "extract_n h (Suc n) =
     (case DHeap_extract h of
        Inl err \<Rightarrow> Inl err
      | Inr (node, h') \<Rightarrow>
          (case extract_n h' n of
             Inl err \<Rightarrow> Inl err
           | Inr (nodes, h'') \<Rightarrow> Inr (node # nodes, h'')))"

text \<open>
  What the sifting loops need of a comparator: any two keys are comparable, and it is
  transitive.  \<open>\<le>\<close> and \<open>\<ge>\<close> on a linear order are such comparators.
\<close>

definition total_preorder :: "('k \<Rightarrow> 'k \<Rightarrow> bool) \<Rightarrow> bool" where
  "total_preorder cmp \<longleftrightarrow>
     (\<forall>x y. cmp x y \<or> cmp y x) \<and> (\<forall>x y z. cmp x y \<longrightarrow> cmp y z \<longrightarrow> cmp x z)"

text \<open>The invariant restricted to the children of the indices from \<open>k\<close> on.\<close>

definition heap_from ::
  "('k \<Rightarrow> 'k \<Rightarrow> bool) \<Rightarrow> nat \<Rightarrow> nat \<Rightarrow> ('k, 'v) TreeNode list \<Rightarrow> bool" where
  "heap_from cmp a k xs \<longleftrightarrow>
     (\<forall>j. 0 < j \<and> j < length xs \<and> k \<le> (j - 1) div a \<longrightarrow>
          cmp (key (xs ! ((j - 1) div a))) (key (xs ! j)))"

text \<open>
  The loop invariant of sifting down at \<open>i\<close>: the invariant holds from \<open>k\<close> on except
  between \<open>i\<close> and its children, and the parent of \<open>i\<close> dominates the children of \<open>i\<close>.
\<close>

definition sift_down_inv ::
  "('k \<Rightarrow> 'k \<Rightarrow> bool) \<Rightarrow> nat \<Rightarrow> nat \<Rightarrow> nat \<Rightarrow> ('k, 'v) TreeNode list \<Rightarrow> bool" where
  "sift_down_inv cmp a k i xs \<longleftrightarrow>
     (\<forall>j. 0 < j \<and> j < length xs \<and> k \<le> (j - 1) div a \<and> (j - 1) div a \<noteq> i \<longrightarrow>
          cmp (key (xs ! ((j - 1) div a))) (key (xs ! j))) \<and>
     (0 < i \<and> k \<le> (i - 1) div a \<longrightarrow>
        (\<forall>j. 0 < j \<and> j < length xs \<and> (j - 1) div a = i \<longrightarrow>
             cmp (key (xs ! ((i - 1) div a))) (key (xs ! j))))"

text \<open>
  The loop invariant of sifting up at \<open>i\<close>: the invariant holds except between \<open>i\<close> and
  its parent, and the parent of \<open>i\<close> dominates the children of \<open>i\<close>.
\<close>

definition sift_up_inv ::
  "('k \<Rightarrow> 'k \<Rightarrow> bool) \<Rightarrow> nat \<Rightarrow> nat \<Rightarrow> ('k, 'v) TreeNode list \<Rightarrow> bool" where
  "sift_up_inv cmp a i xs \<longleftrightarrow>
     (\<forall>j. 0 < j \<and> j < length xs \<and> j \<noteq> i \<longrightarrow>
          cmp (key (xs ! ((j - 1) div a))) (key (xs ! j))) \<and>
     (0 < i \<longrightarrow>
        (\<forall>j. 0 < j \<and> j < length xs \<and> (j - 1) div a = i \<longrightarrow>
             cmp (key (xs ! ((i - 1) div a))) (key (xs ! j))))"

section \<open>Properties stated about Dijkstra's loop\<close>


text \<open>
  Every predecessor recorded in \<^verbatim>\<open>pred\<close> was recorded through an edge of strictly
  positive weight.
\<close>

definition pred_via_positive_edges :: "Graph \<Rightarrow> (string, string option) dict \<Rightarrow> bool" where
  "pred_via_positive_edges graph pred \<longleftrightarrow>
     (\<forall>v u. map_of pred v = Some (Some u) \<longrightarrow>
        (\<exists>edge. map_of (edge_weights graph) (u @ ''_'' @ v) = Some edge \<and> 0 < edge_value edge))"

text \<open>The predecessor dictionary of either shape of result.\<close>

fun result_pred :: "dijkstra_result \<Rightarrow> (string, string option) dict" where
  "result_pred (TargetDistance dt pred) = pred"
| "result_pred (AllDistances dist pred) = pred"

section \<open>Concrete heaps used to exercise the statements\<close>

definition example_max_heap0 :: "(int, string) DHeap" where
  "example_max_heap0 =
     \<lparr>compf = (\<lambda>key_parent key_child. key_parent \<ge> key_child), heap = [], d = 2,
      heap_property = ''max'', last_pos_filled = - 1\<rparr>"

definition example_max_heap1 :: "(int, string) DHeap" where
  "example_max_heap1 =
     \<lparr>compf = (\<lambda>key_parent key_child. key_parent \<ge> key_child),
      heap = [\<lparr>key = 3, data = ''x''\<rparr>], d = 2,
      heap_property = ''max'', last_pos_filled = 0\<rparr>"

definition example_max_heap2 :: "(int, string) DHeap" where
  "example_max_heap2 =
     \<lparr>compf = (\<lambda>key_parent key_child. key_parent \<ge> key_child),
      heap = [\<lparr>key = 8, data = ''y''\<rparr>, \<lparr>key = 3, data = ''x''\<rparr>], d = 2,
      heap_property = ''max'', last_pos_filled = 1\<rparr>"

definition example_tie_heap :: "(int, string) DHeap" where
  "example_tie_heap =
     \<lparr>compf = (\<lambda>key_parent key_child. key_parent \<le> key_child),
      heap = [\<lparr>key = 1, data = ''x''\<rparr>, \<lparr>key = 5, data = ''b''\<rparr>,
              \<lparr>key = 5, data = ''c''\<rparr>, \<lparr>key = 7, data = ''a''\<rparr>],
      d = 2, heap_property = ''min'', last_pos_filled = 3\<rparr>"

definition example_tie_heap_after :: "(int, string) DHeap" where
  "example_tie_heap_after =
     \<lparr>compf = (\<lambda>key_parent key_child. key_parent \<le> key_child),
      heap = [\<lparr>key = 5, data = ''c''\<rparr>, \<lparr>key = 5, data = ''b''\<rparr>,
              \<lparr>key = 7, data = ''a''\<rparr>],
      d = 2, heap_property = ''min'', last_pos_filled = 2\<rparr>"

definition example_tie_nodes :: "(int, string) TreeNode list" where
  "example_tie_nodes =
     [\<lparr>key = 7, data = ''a''\<rparr>, \<lparr>key = 5, data = ''b''\<rparr>, \<lparr>key = 5, data = ''c''\<rparr>]"

section \<open>Concrete graphs used to exercise the statements\<close>


definition example_graph_zero :: Graph where
  "example_graph_zero =
     \<lparr>vertices = [''A'', ''B''],
      graph_nodes =
        [(''A'', \<lparr>node_name = ''A'', adjacent = [''B'']\<rparr>),
         (''B'', \<lparr>node_name = ''B'', adjacent = [''A'']\<rparr>)],
      edge_weights =
        [(''A_B'', \<lparr>edge_source = ''A'', edge_target = ''B'', edge_value = 0\<rparr>),
         (''B_A'', \<lparr>edge_source = ''B'', edge_target = ''A'', edge_value = 0\<rparr>)],
      impl = ''adjacency_list''\<rparr>"

definition example_dijkstra_state :: dijkstra_state where
  "example_dijkstra_state =
     \<lparr>dj_visited = [(''A'', True), (''B'', False)],
      dj_dist = [(''B'', PInf), (''A'', Fin 0)],
      dj_pred = [(''A'', None), (''B'', None)],
      dj_pq = \<lparr>items = \<lparr>compf = (\<lambda>u v. u < v), heap = [\<lparr>key = PInf, data = ''B''\<rparr>], d = 2,
                         heap_property = ''min'', last_pos_filled = 0\<rparr>\<rparr>\<rparr>"

section \<open>Worked examples of the graph algorithms\<close>

lemma dijkstra_example_graph:
  "add_edge_pairs
     (Graph_new [AdjacencyListGraphNode_new ''V1'', AdjacencyListGraphNode_new ''V2'',
                 AdjacencyListGraphNode_new ''V3''])
     [(''V2'', ''V3'', 10), (''V1'', ''V2'', 11)] =
   Inr \<lparr>vertices = [''V1'', ''V2'', ''V3''],
        graph_nodes =
          [(''V1'', \<lparr>node_name = ''V1'', adjacent = [''V2'']\<rparr>),
           (''V2'', \<lparr>node_name = ''V2'', adjacent = [''V3'', ''V1'']\<rparr>),
           (''V3'', \<lparr>node_name = ''V3'', adjacent = [''V2'']\<rparr>)],
        edge_weights =
          [(''V2_V3'', \<lparr>edge_source = ''V2'', edge_target = ''V3'', edge_value = 10\<rparr>),
           (''V3_V2'', \<lparr>edge_source = ''V3'', edge_target = ''V2'', edge_value = 10\<rparr>),
           (''V1_V2'', \<lparr>edge_source = ''V1'', edge_target = ''V2'', edge_value = 11\<rparr>),
           (''V2_V1'', \<lparr>edge_source = ''V2'', edge_target = ''V1'', edge_value = 11\<rparr>)],
        impl = ''adjacency_list''\<rparr>"
  by code_simp

lemma dijkstra_example_run:
  "shortest_paths
     \<lparr>vertices = [''V1'', ''V2'', ''V3''],
      graph_nodes =
        [(''V1'', \<lparr>node_name = ''V1'', adjacent = [''V2'']\<rparr>),
         (''V2'', \<lparr>node_name = ''V2'', adjacent = [''V3'', ''V1'']\<rparr>),
         (''V3'', \<lparr>node_name = ''V3'', adjacent = [''V2'']\<rparr>)],
      edge_weights =
        [(''V2_V3'', \<lparr>edge_source = ''V2'', edge_target = ''V3'', edge_value = 10\<rparr>),
         (''V3_V2'', \<lparr>edge_source = ''V3'', edge_target = ''V2'', edge_value = 10\<rparr>),
         (''V1_V2'', \<lparr>edge_source = ''V1'', edge_target = ''V2'', edge_value = 11\<rparr>),
         (''V2_V1'', \<lparr>edge_source = ''V2'', edge_target = ''V1'', edge_value = 11\<rparr>)],
      impl = ''adjacency_list''\<rparr>
     ''dijkstra'' ''V1'' [] =
   Inr (AllDistances [(''V2'', Fin 11), (''V3'', Fin 21), (''V1'', Fin 0)]
          [(''V1'', None), (''V2'', Some ''V1''), (''V3'', Some ''V2'')])"
  by code_simp

text \<open>
  C3.  On the graph with vertices V1, V2, V3 and the edges V2-V3 of weight 10 and V1-V2 of
  weight 11, each stored in both directions, \<^verbatim>\<open>shortest_paths(G, 'dijkstra', 'V1')\<close>
  with no target returns the distances V1: 0, V2: 11, V3: 21 and the predecessors
  V1: None, V2: V1, V3: V2.
\<close>

theorem dijkstra_three_vertex_example:
  "\<exists>G dist pred.
     add_edge_pairs
       (Graph_new [AdjacencyListGraphNode_new ''V1'', AdjacencyListGraphNode_new ''V2'',
                   AdjacencyListGraphNode_new ''V3''])
       [(''V2'', ''V3'', 10), (''V1'', ''V2'', 11)] = Inr G \<and>
     shortest_paths G ''dijkstra'' ''V1'' [] = Inr (AllDistances dist pred) \<and>
     map_of dist = [''V1'' \<mapsto> Fin 0, ''V2'' \<mapsto> Fin 11, ''V3'' \<mapsto> Fin 21] \<and>
     map_of pred = [''V1'' \<mapsto> None, ''V2'' \<mapsto> Some ''V1'', ''V3'' \<mapsto> Some ''V2''] \<and>
     distinct (map fst dist) \<and> distinct (map fst pred)"
proof -
  let ?dist = "[(''V2'', Fin 11), (''V3'', Fin 21), (''V1'', Fin 0)]"
  let ?pred = "[(''V1'', None), (''V2'', Some ''V1''), (''V3'', Some ''V2'')]"
  have "map_of ?dist = [''V1'' \<mapsto> Fin 0, ''V2'' \<mapsto> Fin 11, ''V3'' \<mapsto> Fin 21]"
    by (rule ext) simp
  moreover have "map_of ?pred =
      [''V1'' \<mapsto> None, ''V2'' \<mapsto> Some ''V1'', ''V3'' \<mapsto> Some ''V2'']"
    by (rule ext) simp
  moreover have "distinct (map fst ?dist)" and "distinct (map fst ?pred)" by simp_all
  ultimately show ?thesis
    using dijkstra_example_graph dijkstra_example_run by blast
qed

lemma prim_example_graph:
  "add_edge_pairs (Graph_new [AdjacencyListGraphNode_new ''A'', AdjacencyListGraphNode_new ''B''])
     [(''A'', ''B'', 3)] =
   Inr \<lparr>vertices = [''A'', ''B''],
        graph_nodes =
          [(''A'', \<lparr>node_name = ''A'', adjacent = [''B'']\<rparr>),
           (''B'', \<lparr>node_name = ''B'', adjacent = [''A'']\<rparr>)],
        edge_weights =
          [(''A_B'', \<lparr>edge_source = ''A'', edge_target = ''B'', edge_value = 3\<rparr>),
           (''B_A'', \<lparr>edge_source = ''B'', edge_target = ''A'', edge_value = 3\<rparr>)],
        impl = ''adjacency_list''\<rparr>"
  by code_simp

lemma prim_example_run:
  "minimum_spanning_tree
     \<lparr>vertices = [''A'', ''B''],
      graph_nodes =
        [(''A'', \<lparr>node_name = ''A'', adjacent = [''B'']\<rparr>),
         (''B'', \<lparr>node_name = ''B'', adjacent = [''A'']\<rparr>)],
      edge_weights =
        [(''A_B'', \<lparr>edge_source = ''A'', edge_target = ''B'', edge_value = 3\<rparr>),
         (''B_A'', \<lparr>edge_source = ''B'', edge_target = ''A'', edge_value = 3\<rparr>)],
      impl = ''adjacency_list''\<rparr>
     ''prim'' =
   Some (Inr \<lparr>vertices = [''A'', ''B'', ''B''],
          graph_nodes =
            [(''A'', \<lparr>node_name = ''A'', adjacent = [''B'']\<rparr>),
             (''B'', \<lparr>node_name = ''B'', adjacent = [''A'']\<rparr>)],
          edge_weights =
            [(''A_B'', \<lparr>edge_source = ''A'', edge_target = ''B'', edge_value = 3\<rparr>),
             (''B_A'', \<lparr>edge_source = ''B'', edge_target = ''A'', edge_value = 3\<rparr>)],
          impl = ''adjacency_list''\<rparr>)"
  by code_simp

text \<open>
  C4.  On the graph over A and B with the single undirected edge of weight 3 (stored as
  A\<rightarrow>B and B\<rightarrow>A), \<^verbatim>\<open>minimum_spanning_tree(G, 'prim')\<close> returns a graph whose edges
  are exactly A\<rightarrow>B and B\<rightarrow>A, each of weight 3; the total over the directed edges, halved
  as in minimum_random_forest.py, is 3.
\<close>

theorem prim_two_vertex_example:
  "\<exists>G mst.
     add_edge_pairs (Graph_new [AdjacencyListGraphNode_new ''A'', AdjacencyListGraphNode_new ''B''])
       [(''A'', ''B'', 3)] = Inr G \<and>
     minimum_spanning_tree G ''prim'' = Some (Inr mst) \<and>
     edge_weights mst =
       [(''A_B'', \<lparr>edge_source = ''A'', edge_target = ''B'', edge_value = 3\<rparr>),
        (''B_A'', \<lparr>edge_source = ''B'', edge_target = ''A'', edge_value = 3\<rparr>)] \<and>
     sum_list (map (\<lambda>(k, e). edge_value e) (edge_weights mst)) div 2 = 3"
proof -
  let ?ew = "[(''A_B'', \<lparr>edge_source = ''A'', edge_target = ''B'', edge_value = 3\<rparr>),
              (''B_A'', \<lparr>edge_source = ''B'', edge_target = ''A'', edge_value = 3\<rparr>)]"
  let ?mst = "\<lparr>vertices = [''A'', ''B'', ''B''],
          graph_nodes =
            [(''A'', \<lparr>node_name = ''A'', adjacent = [''B'']\<rparr>),
             (''B'', \<lparr>node_name = ''B'', adjacent = [''A'']\<rparr>)],
          edge_weights = ?ew, impl = ''adjacency_list''\<rparr>"
  have "edge_weights ?mst = ?ew" by simp
  moreover have "sum_list (map (\<lambda>(k, e). edge_value e) (edge_weights ?mst)) div 2 = 3" by simp
  ultimately show ?thesis
    using prim_example_graph prim_example_run by blast
qed

section \<open>Sifting: lengths, contents, order\<close>

lemma total_preorder_refl: "total_preorder cmp \<Longrightarrow> cmp x x"
  unfolding total_preorder_def by blast

lemma total_preorder_trans: "total_preorder cmp \<Longrightarrow> cmp x y \<Longrightarrow> cmp y z \<Longrightarrow> cmp x z"
  unfolding total_preorder_def by blast

lemma total_preorder_total: "total_preorder cmp \<Longrightarrow> \<not> cmp x y \<Longrightarrow> cmp y x"
  unfolding total_preorder_def by blast

lemma total_preorder_le: "total_preorder (\<lambda>x y :: 'k::linorder. x \<le> y)"
  unfolding total_preorder_def by auto

lemma total_preorder_ge: "total_preorder (\<lambda>x y :: 'k::linorder. x \<ge> y)"
  unfolding total_preorder_def by auto

lemma parent_eq_iff:
  fixes a i j :: nat
  assumes "0 < a" and "0 < j"
  shows "((j - 1) div a = i) = (a * i + 1 \<le> j \<and> j \<le> a * i + a)"
proof
  assume e: "(j - 1) div a = i"
  have 1: "a * i \<le> j - 1" unfolding e[symmetric] by (rule times_div_less_eq_dividend)
  have "j - 1 < a * ((j - 1) div a) + a"
    using assms(1) by (metis add.commute dividend_less_times_div mult.commute)
  then have 2: "j - 1 < a * i + a" using e by simp
  show "a * i + 1 \<le> j \<and> j \<le> a * i + a" using 1 2 assms(2) by linarith
next
  assume b: "a * i + 1 \<le> j \<and> j \<le> a * i + a"
  then have "a * i \<le> j - 1" and "j - 1 < a * Suc i" using assms(2) by auto
  then show "(j - 1) div a = i" by (rule div_nat_eqI)
qed

lemma parent_less: "0 < (j::nat) \<Longrightarrow> (j - 1) div a < j"
  using div_le_dividend[of "j - 1" a] by linarith

lemma heap_swap_length [simp]: "length (heap_swap xs i j) = length xs"
  by (simp add: heap_swap_def)

lemma heap_swap_nth:
  "i < length xs \<Longrightarrow> j < length xs \<Longrightarrow> m < length xs \<Longrightarrow>
   heap_swap xs i j ! m = (if m = j then xs ! i else if m = i then xs ! j else xs ! m)"
  by (simp add: heap_swap_def nth_list_update)

lemma heap_swap_mset:
  "i < length xs \<Longrightarrow> j < length xs \<Longrightarrow> mset (heap_swap xs i j) = mset xs"
  unfolding heap_swap_def by (rule mset_swap)

lemma heapify_scan_dominates:
  assumes tp: "total_preorder cmp"
  shows "sorted js \<Longrightarrow>
     cmp (key (xs ! heapify_scan cmp lpf xs js t)) (key (xs ! t)) \<and>
     (\<forall>j\<in>set js. int j \<le> lpf \<longrightarrow> cmp (key (xs ! heapify_scan cmp lpf xs js t)) (key (xs ! j)))"
proof (induction js arbitrary: t)
  case Nil
  show ?case using total_preorder_refl[OF tp] by simp
next
  case (Cons j js)
  show ?case
  proof (cases "int j \<le> lpf")
    case False
    with Cons.prems have "\<forall>j'\<in>set (j # js). \<not> int j' \<le> lpf" by auto
    with False show ?thesis using total_preorder_refl[OF tp] by simp
  next
    case True
    let ?t = "if cmp (key (xs ! j)) (key (xs ! t)) then j else t"
    let ?r = "heapify_scan cmp lpf xs js ?t"
    from Cons.prems have "sorted js" by simp
    from Cons.IH[OF this, of ?t]
    have r1: "cmp (key (xs ! ?r)) (key (xs ! ?t))"
      and r2: "\<forall>j\<in>set js. int j \<le> lpf \<longrightarrow> cmp (key (xs ! ?r)) (key (xs ! j))" by blast+
    have req: "heapify_scan cmp lpf xs (j # js) t = ?r" using True by simp
    have "cmp (key (xs ! ?r)) (key (xs ! t)) \<and> cmp (key (xs ! ?r)) (key (xs ! j))"
    proof (cases "cmp (key (xs ! j)) (key (xs ! t))")
      case True
      with r1 show ?thesis using total_preorder_trans[OF tp] by auto
    next
      case False
      then have "cmp (key (xs ! t)) (key (xs ! j))" by (rule total_preorder_total[OF tp])
      with r1 False show ?thesis using total_preorder_trans[OF tp] by auto
    qed
    with r2 show ?thesis unfolding req by simp
  qed
qed

lemma heapify_scan_children:
  fixes a i :: nat
  assumes tp: "total_preorder cmp" and n: "lpf = int (length xs) - 1"
  defines "t \<equiv> heapify_scan cmp lpf xs (py_range (a * i + 1) (a * i + a + 1)) i"
  shows "cmp (key (xs ! t)) (key (xs ! i))"
    and "\<And>j. a * i + 1 \<le> j \<Longrightarrow> j \<le> a * i + a \<Longrightarrow> j < length xs \<Longrightarrow> cmp (key (xs ! t)) (key (xs ! j))"
    and "t = i \<or> (a * i + 1 \<le> t \<and> t \<le> a * i + a \<and> t < length xs)"
proof -
  have s: "sorted (py_range (a * i + 1) (a * i + a + 1))" unfolding py_range_def by (rule sorted_upt)
  from heapify_scan_dominates[OF tp s, of xs lpf i]
  show "cmp (key (xs ! t)) (key (xs ! i))" unfolding t_def by blast
  fix j assume "a * i + 1 \<le> j" "j \<le> a * i + a" "j < length xs"
  then have "j \<in> set (py_range (a * i + 1) (a * i + a + 1))" and "int j \<le> lpf"
    using n by (auto simp: py_range_def)
  with heapify_scan_dominates[OF tp s, of xs lpf i]
  show "cmp (key (xs ! t)) (key (xs ! j))" unfolding t_def by blast
next
  from heapify_scan_range[of cmp lpf xs "(py_range (a * i + 1) (a * i + a + 1))" i]
  have "t = i \<or> (t \<in> set (py_range (a * i + 1) (a * i + a + 1)) \<and> int t \<le> lpf)" unfolding t_def by blast
  then show "t = i \<or> (a * i + 1 \<le> t \<and> t \<le> a * i + a \<and> t < length xs)"
    using n by (auto simp only: py_range_def set_upt atLeastLessThan_iff)
qed


lemma heapify_loop_length [simp]: "length (heapify_loop cmp a lpf xs i) = length xs"
proof (induction cmp a lpf xs i rule: heapify_loop.induct)
  case (1 cmp a lpf xs i)
  show ?case
    using "1.IH" by (subst heapify_loop.simps) (simp add: Let_def)
qed

lemma heapify_loop_mset:
  "lpf = int (length xs) - 1 \<Longrightarrow> mset (heapify_loop cmp a lpf xs i) = mset xs"
proof (induction cmp a lpf xs i rule: heapify_loop.induct)
  case (1 cmp a lpf xs i)
  let ?t = "heapify_scan cmp lpf xs (py_range (a * i + 1) (a * i + a + 1)) i"
  show ?case
  proof (cases "?t = i")
    case True
    then show ?thesis by (subst heapify_loop.simps) (simp add: Let_def)
  next
    case False
    from heapify_scan_range[of cmp lpf xs "(py_range (a * i + 1) (a * i + a + 1))" i] False
    have mem: "?t \<in> set (py_range (a * i + 1) (a * i + a + 1))" and le: "int ?t \<le> lpf" by blast+
    from mem have lt: "a * i + 1 \<le> ?t" and tr: "?t < a * i + a + 1"
      by (simp_all only: py_range_def set_upt atLeastLessThan_iff)
    from lt tr have "0 < a" by simp
    then have "i \<le> a * i" by simp
    with lt le "1.prems" have tn: "?t < length xs" and it: "i < length xs" by linarith+
    have "mset (heapify_loop cmp a lpf (heap_swap xs ?t i) ?t) = mset (heap_swap xs ?t i)"
      using "1.IH"[OF refl refl refl False] "1.prems" by simp
    also have "\<dots> = mset xs" using tn it by (rule heap_swap_mset)
    finally show ?thesis using False by (subst heapify_loop.simps) (simp add: Let_def)
  qed
qed

lemma heapify_loop_heap:
  "total_preorder cmp \<Longrightarrow> 0 < a \<Longrightarrow> lpf = int (length xs) - 1 \<Longrightarrow> k \<le> i \<Longrightarrow>
   sift_down_inv cmp a k i xs \<Longrightarrow> heap_from cmp a k (heapify_loop cmp a lpf xs i)"
proof (induction cmp a lpf xs i rule: heapify_loop.induct)
  case (1 cmp a lpf xs i)
  note tp = "1.prems"(1) and a = "1.prems"(2) and n = "1.prems"(3) and ki = "1.prems"(4)
  let ?t = "heapify_scan cmp lpf xs (py_range (a * i + 1) (a * i + a + 1)) i"
  let ?p = "\<lambda>j. (j - 1) div a"
  from "1.prems"(5)
  have A: "\<And>j. 0 < j \<Longrightarrow> j < length xs \<Longrightarrow> k \<le> ?p j \<Longrightarrow> ?p j \<noteq> i \<Longrightarrow>
              cmp (key (xs ! ?p j)) (key (xs ! j))"
    and B: "\<And>j. 0 < i \<Longrightarrow> k \<le> ?p i \<Longrightarrow> 0 < j \<Longrightarrow> j < length xs \<Longrightarrow> ?p j = i \<Longrightarrow>
              cmp (key (xs ! ?p i)) (key (xs ! j))"
    unfolding sift_down_inv_def by blast+
  note sc = heapify_scan_children[OF tp n, of a i]
  have C: "\<And>j. 0 < j \<Longrightarrow> j < length xs \<Longrightarrow> ?p j = i \<Longrightarrow> cmp (key (xs ! ?t)) (key (xs ! j))"
    using sc(2) parent_eq_iff[OF a] by blast
  show ?case
  proof (cases "?t = i")
    case True
    have "heap_from cmp a k xs"
      unfolding heap_from_def
    proof (intro allI impI)
      fix j assume j: "0 < j \<and> j < length xs \<and> k \<le> ?p j"
      show "cmp (key (xs ! ?p j)) (key (xs ! j))"
      proof (cases "?p j = i")
        case True
        with C[of j] j \<open>?t = i\<close> show ?thesis by simp
      next
        case False
        with A[of j] j show ?thesis by simp
      qed
    qed
    with True show ?thesis by (subst heapify_loop.simps) (simp add: Let_def)
  next
    case False
    with sc(3) have t1: "a * i + 1 \<le> ?t" and t2: "?t \<le> a * i + a" and tn: "?t < length xs"
      by blast+
    have pt: "?p ?t = i" and t0: "0 < ?t"
      using parent_eq_iff[OF a, of ?t i] t1 t2 by auto
    have it: "i < ?t" using parent_less[of ?t a] pt t0 by simp
    have "i < length xs" using it tn by simp
    note nth = heap_swap_nth[OF tn \<open>i < length xs\<close>]
    let ?ys = "heap_swap xs ?t i"
    have inv: "sift_down_inv cmp a k ?t ?ys"
      unfolding sift_down_inv_def
    proof (intro conjI allI impI)
      fix j assume j: "0 < j \<and> j < length ?ys \<and> k \<le> ?p j \<and> ?p j \<noteq> ?t"
      then have j0: "0 < j" and jn: "j < length xs" and kj: "k \<le> ?p j" and pjt: "?p j \<noteq> ?t"
        by simp_all
      have pjn: "?p j < length xs" using parent_less[OF j0, of a] jn by simp
      show "cmp (key (?ys ! ?p j)) (key (?ys ! j))"
      proof (cases "?p j = i")
        case True
        then have ji: "j \<noteq> i" using parent_less[OF j0, of a] by auto
        have l: "?ys ! ?p j = xs ! ?t" using True nth[OF \<open>i < length xs\<close>] by simp
        show ?thesis
        proof (cases "j = ?t")
          case True
          then have "?ys ! j = xs ! i" using nth[OF tn] it by simp
          with l sc(1) show ?thesis by simp
        next
          case False
          then have "?ys ! j = xs ! j" using nth[OF jn] ji by simp
          with l C[OF j0 jn True] show ?thesis by simp
        qed
      next
        case False
        have jt: "j \<noteq> ?t" using pjt False pt by auto
        have l: "?ys ! ?p j = xs ! ?p j" using nth[OF pjn] False pjt by simp
        show ?thesis
        proof (cases "j = i")
          case True
          then have r: "?ys ! j = xs ! ?t" using nth[OF jn] by simp
          have "cmp (key (xs ! ?p i)) (key (xs ! ?t))"
            using B[of ?t] j0 kj True t0 tn pt by simp
          with l r True show ?thesis by simp
        next
          case False
          then have "?ys ! j = xs ! j" using nth[OF jn] jt by simp
          with l A[OF j0 jn kj \<open>?p j \<noteq> i\<close>] show ?thesis by simp
        qed
      qed
    next
      fix j assume h: "0 < ?t \<and> k \<le> ?p ?t" and j: "0 < j \<and> j < length ?ys \<and> ?p j = ?t"
      then have j0: "0 < j" and jn: "j < length xs" and pj: "?p j = ?t" by simp_all
      have "?t < j" using parent_less[OF j0, of a] pj by simp
      then have "j \<noteq> ?t" and "j \<noteq> i" using it by auto
      then have r: "?ys ! j = xs ! j" using nth[OF jn] by simp
      have l: "?ys ! ?p ?t = xs ! ?t" using pt nth[OF \<open>i < length xs\<close>] by simp
      have "cmp (key (xs ! ?p j)) (key (xs ! j))"
        using A[OF j0 jn] pj ki it by simp
      with l r pj show "cmp (key (?ys ! ?p ?t)) (key (?ys ! j))" by simp
    qed
    have "heap_from cmp a k (heapify_loop cmp a lpf ?ys ?t)"
      using "1.IH"[OF refl refl refl False tp a _ _ inv] n ki it by simp
    with False show ?thesis by (subst heapify_loop.simps) (simp add: Let_def)
  qed
qed


lemma insert_loop_length [simp]: "length (insert_loop cmp a xs i) = length xs"
proof (induction cmp a xs i rule: insert_loop.induct)
  case (1 cmp a xs i)
  show ?case
    using "1.IH" by (subst insert_loop.simps) (simp add: Let_def)
qed

lemma insert_loop_mset:
  "i < length xs \<Longrightarrow> mset (insert_loop cmp a xs i) = mset xs"
proof (induction cmp a xs i rule: insert_loop.induct)
  case (1 cmp a xs i)
  let ?p = "(i - 1) div a"
  show ?case
  proof (cases "i = 0 \<or> cmp (key (xs ! ?p)) (key (xs ! i))")
    case True
    then show ?thesis by (subst insert_loop.simps) (simp add: Let_def)
  next
    case False
    then have "0 < i" by simp
    then have pi: "?p < i" by (rule parent_less)
    with "1.prems" have pn: "?p < length xs" by simp
    have "mset (insert_loop cmp a (heap_swap xs i ?p) ?p) = mset (heap_swap xs i ?p)"
      using "1.IH"[OF refl False] pn by simp
    also have "\<dots> = mset xs" using "1.prems" pn by (rule heap_swap_mset)
    finally show ?thesis using False by (subst insert_loop.simps) (simp add: Let_def)
  qed
qed

lemma insert_loop_heap:
  "total_preorder cmp \<Longrightarrow> i < length xs \<Longrightarrow> sift_up_inv cmp a i xs \<Longrightarrow>
   heap_from cmp a 0 (insert_loop cmp a xs i)"
proof (induction cmp a xs i rule: insert_loop.induct)
  case (1 cmp a xs i)
  note tp = "1.prems"(1) and n = "1.prems"(2)
  let ?p = "\<lambda>j. (j - 1) div a"
  from "1.prems"(3)
  have A: "\<And>j. 0 < j \<Longrightarrow> j < length xs \<Longrightarrow> j \<noteq> i \<Longrightarrow> cmp (key (xs ! ?p j)) (key (xs ! j))"
    and B: "\<And>j. 0 < i \<Longrightarrow> 0 < j \<Longrightarrow> j < length xs \<Longrightarrow> ?p j = i \<Longrightarrow>
              cmp (key (xs ! ?p i)) (key (xs ! j))"
    unfolding sift_up_inv_def by blast+
  show ?case
  proof (cases "i = 0 \<or> cmp (key (xs ! ?p i)) (key (xs ! i))")
    case True
    have "heap_from cmp a 0 xs"
      unfolding heap_from_def
    proof (intro allI impI)
      fix j assume j: "0 < j \<and> j < length xs \<and> 0 \<le> ?p j"
      show "cmp (key (xs ! ?p j)) (key (xs ! j))"
        using A[of j] j True by (cases "j = i") auto
    qed
    with True show ?thesis by (subst insert_loop.simps) (simp add: Let_def)
  next
    case False
    then have i0: "0 < i" and nc: "\<not> cmp (key (xs ! ?p i)) (key (xs ! i))" by simp_all
    have ip: "cmp (key (xs ! i)) (key (xs ! ?p i))" using nc by (rule total_preorder_total[OF tp])
    have pi: "?p i < i" using i0 by (rule parent_less)
    then have pn: "?p i < length xs" using n by simp
    note nth = heap_swap_nth[OF n pn]
    let ?ys = "heap_swap xs i (?p i)"
    have inv: "sift_up_inv cmp a (?p i) ?ys"
      unfolding sift_up_inv_def
    proof (intro conjI allI impI)
      fix j assume j: "0 < j \<and> j < length ?ys \<and> j \<noteq> ?p i"
      then have j0: "0 < j" and jn: "j < length xs" and jp: "j \<noteq> ?p i" by simp_all
      have pjj: "?p j < j" using j0 by (rule parent_less)
      then have pjn: "?p j < length xs" using jn by simp
      show "cmp (key (?ys ! ?p j)) (key (?ys ! j))"
      proof (cases "j = i")
        case True
        then show ?thesis using nth[OF n] nth[OF pn] ip pi by simp
      next
        case False
        then have r: "?ys ! j = xs ! j" using nth[OF jn] jp by simp
        show ?thesis
        proof (cases "?p j = ?p i")
          case True
          then have "?ys ! ?p j = xs ! i" using nth[OF pn] by simp
          moreover have "cmp (key (xs ! i)) (key (xs ! j))"
            using total_preorder_trans[OF tp ip] A[OF j0 jn False] True by simp
          ultimately show ?thesis using r by simp
        next
          case np: False
          show ?thesis
          proof (cases "?p j = i")
            case True
            then have "?ys ! ?p j = xs ! ?p i" using nth[OF n] pi by simp
            with r B[OF i0 j0 jn True] show ?thesis by simp
          next
            case False
            then have "?ys ! ?p j = xs ! ?p j" using nth[OF pjn] np by simp
            with r A[OF j0 jn \<open>j \<noteq> i\<close>] show ?thesis by simp
          qed
        qed
      qed
    next
      fix j assume p0: "0 < ?p i" and j: "0 < j \<and> j < length ?ys \<and> ?p j = ?p i"
      then have j0: "0 < j" and jn: "j < length xs" and pj: "?p j = ?p i" by simp_all
      have ppi: "?p (?p i) < ?p i" using p0 by (rule parent_less)
      then have l: "?ys ! ?p (?p i) = xs ! ?p (?p i)" using nth[of "?p (?p i)"] pi pn by simp
      have g: "cmp (key (xs ! ?p (?p i))) (key (xs ! ?p i))"
        using A[OF p0 pn] pi by simp
      have jp: "j \<noteq> ?p i" using parent_less[OF j0, of a] pj by simp
      show "cmp (key (?ys ! ?p (?p i))) (key (?ys ! j))"
      proof (cases "j = i")
        case True
        then have "?ys ! j = xs ! ?p i" using nth[OF n] pi by simp
        with l g show ?thesis by simp
      next
        case False
        then have "?ys ! j = xs ! j" using nth[OF jn] jp by simp
        moreover have "cmp (key (xs ! ?p i)) (key (xs ! j))" using A[OF j0 jn False] pj by simp
        ultimately show ?thesis using l total_preorder_trans[OF tp g] by simp
      qed
    qed
    have "heap_from cmp a 0 (insert_loop cmp a ?ys (?p i))"
      using "1.IH"[OF refl False tp _ inv] pn by simp
    with False show ?thesis by (subst insert_loop.simps) (simp add: Let_def)
  qed
qed

lemma heap_from_mono: "heap_from cmp a k xs \<Longrightarrow> k \<le> k' \<Longrightarrow> heap_from cmp a k' xs"
  unfolding heap_from_def by auto

lemma heap_from_sift_down_inv:
  "heap_from cmp a (Suc i) xs \<Longrightarrow> sift_down_inv cmp a i i xs"
  unfolding heap_from_def sift_down_inv_def
proof (intro conjI allI impI)
  fix j
  assume h: "\<forall>j. 0 < j \<and> j < length xs \<and> Suc i \<le> (j - 1) div a \<longrightarrow>
                 cmp (key (xs ! ((j - 1) div a))) (key (xs ! j))"
    and j: "0 < j \<and> j < length xs \<and> i \<le> (j - 1) div a \<and> (j - 1) div a \<noteq> i"
  then have "Suc i \<le> (j - 1) div a" by simp
  with h j show "cmp (key (xs ! ((j - 1) div a))) (key (xs ! j))" by blast
next
  fix j
  assume "0 < i \<and> i \<le> (i - 1) div a"
  then have False using parent_less[of i a] by simp
  then show "cmp (key (xs ! ((i - 1) div a))) (key (xs ! j))" ..
qed

lemma build_fold_length [simp]:
  "length (fold (\<lambda>i ys. heapify_loop cmp a lpf ys i) is xs) = length xs"
  by (induction "is" arbitrary: xs) simp_all

lemma build_fold_mset:
  "lpf = int (length xs) - 1 \<Longrightarrow>
   mset (fold (\<lambda>i ys. heapify_loop cmp a lpf ys i) is xs) = mset xs"
proof (induction "is" arbitrary: xs)
  case Nil
  show ?case by simp
next
  case (Cons i "is")
  have "mset (fold (\<lambda>i ys. heapify_loop cmp a lpf ys i) is (heapify_loop cmp a lpf xs i))
        = mset (heapify_loop cmp a lpf xs i)"
    using Cons.prems by (intro Cons.IH) simp
  also have "\<dots> = mset xs" using Cons.prems by (rule heapify_loop_mset)
  finally show ?case by simp
qed

lemma build_fold_heap:
  "total_preorder cmp \<Longrightarrow> 0 < a \<Longrightarrow> lpf = int (length xs) - 1 \<Longrightarrow>
   heap_from cmp a (Suc m) xs \<Longrightarrow>
   heap_from cmp a 0 (fold (\<lambda>i ys. heapify_loop cmp a lpf ys i) (rev [0 ..< Suc m]) xs)"
proof (induction m arbitrary: xs)
  case 0
  have "heap_from cmp a 0 (heapify_loop cmp a lpf xs 0)"
    using heapify_loop_heap[OF "0.prems"(1,2,3) le_refl heap_from_sift_down_inv[OF "0.prems"(4)]] .
  then show ?case by simp
next
  case (Suc m)
  let ?ys = "heapify_loop cmp a lpf xs (Suc m)"
  have h: "heap_from cmp a (Suc m) ?ys"
    using heapify_loop_heap[OF Suc.prems(1,2,3) le_refl heap_from_sift_down_inv[OF Suc.prems(4)]] .
  have "heap_from cmp a 0 (fold (\<lambda>i ys. heapify_loop cmp a lpf ys i) (rev [0 ..< Suc m]) ?ys)"
    using Suc.IH[OF Suc.prems(1,2) _ h] Suc.prems(3) by simp
  then show ?case by simp
qed

lemma heap_from_beyond:
  "0 < a \<Longrightarrow> heap_from cmp a (Suc (length xs div a)) xs"
  unfolding heap_from_def
proof (intro allI impI)
  fix j assume a: "0 < a" and j: "0 < j \<and> j < length xs \<and> Suc (length xs div a) \<le> (j - 1) div a"
  have "j - 1 \<le> length xs" using j by linarith
  then have "(j - 1) div a \<le> length xs div a" by (rule div_le_mono)
  with j show "cmp (key (xs ! ((j - 1) div a))) (key (xs ! j))" by simp
qed

section \<open>The heap operations on well-formed heaps\<close>

lemma heap_invariant_iff: "heap_invariant h = heap_from (compf h) (d h) 0 (heap h)"
  unfolding heap_invariant_def heap_from_def by auto

lemma build_fold_record:
  "fold (\<lambda>i h'. DHeap_heapify h' i) is h =
   h\<lparr>heap := fold (\<lambda>i ys. heapify_loop (compf h) (d h) (last_pos_filled h) ys i) is (heap h)\<rparr>"
  by (induction "is" arbitrary: h) (simp_all add: DHeap_heapify_def)

lemma DHeap_build_ok:
  assumes a: "0 < d h" and c: "counters_agree h" and tp: "total_preorder (compf h)"
  shows "\<exists>h'. DHeap_build h = Inr h' \<and> compf h' = compf h \<and> d h' = d h \<and>
           heap_property h' = heap_property h \<and> counters_agree h' \<and>
           mset (heap h') = mset (heap h) \<and> heap_invariant h'"
proof -
  let ?lpf = "last_pos_filled h"
  let ?m = "nat (?lpf + 1) div d h"
  let ?ys = "fold (\<lambda>i ys. heapify_loop (compf h) (d h) ?lpf ys i) (rev [0 ..< ?m + 1]) (heap h)"
  have n: "?lpf = int (length (heap h)) - 1"
    using c by (simp add: counters_agree_def array_last_pos_filled_def)
  then have m: "?m = length (heap h) div d h" by simp
  have b: "DHeap_build h = Inr (h\<lparr>heap := ?ys\<rparr>)"
    using a unfolding DHeap_build_def build_fold_record by simp
  have len: "length ?ys = length (heap h)" by (rule build_fold_length)
  have ms: "mset ?ys = mset (heap h)" using n by (rule build_fold_mset)
  have "heap_from (compf h) (d h) (Suc ?m) (heap h)"
    unfolding m using a by (rule heap_from_beyond)
  from build_fold_heap[OF tp a n this]
  have hp: "heap_from (compf h) (d h) 0 ?ys" by simp
  show ?thesis
    using b len ms hp n
    by (simp add: heap_invariant_iff counters_agree_def array_last_pos_filled_def)
qed

lemma DHeap_new_ok:
  fixes elements :: "('k::linorder, 'v) TreeNode list option"
  assumes a: "0 < a" and hp: "hp = ''min'' \<or> hp = ''max''"
  shows "\<exists>h. DHeap_new elements hp a = Inr h \<and>
           compf h = (if hp = ''min'' then (\<lambda>x y. x \<le> y) else (\<lambda>x y. x \<ge> y)) \<and> d h = a \<and>
           heap_property h = hp \<and> counters_agree h \<and>
           mset (heap h) = mset (case elements of None \<Rightarrow> [] | Some es \<Rightarrow> es) \<and>
           heap_invariant h"
proof -
  let ?es = "case elements of None \<Rightarrow> [] | Some es \<Rightarrow> es"
  let ?cmp = "if hp = ''min'' then (\<lambda>x y :: 'k. x \<le> y) else (\<lambda>x y. x \<ge> y)"
  let ?h = "\<lparr>compf = ?cmp, heap = ?es, d = a, heap_property = hp,
             last_pos_filled = array_last_pos_filled ?es\<rparr>"
  have e: "DHeap_new elements hp a = DHeap_build ?h"
    using hp by (auto simp add: DHeap_new_def Let_def)
  have tp: "total_preorder (compf ?h)"
    by (cases "hp = ''min''") (simp_all add: total_preorder_le total_preorder_ge)
  have "0 < d ?h" using a by simp
  moreover have "counters_agree ?h" by (simp add: counters_agree_def)
  ultimately show ?thesis
    using DHeap_build_ok[of ?h, OF _ _ tp] unfolding e by simp
qed

lemma DHeap_insert_ok:
  assumes c: "counters_agree h" and a: "0 < d h"
  shows "\<exists>h'. DHeap_insert h k v = Inr h' \<and> compf h' = compf h \<and> d h' = d h \<and>
           heap_property h' = heap_property h \<and> counters_agree h' \<and>
           mset (heap h') = mset (heap h) + {#\<lparr>key = k, data = v\<rparr>#} \<and>
           (total_preorder (compf h) \<longrightarrow> heap_invariant h \<longrightarrow> heap_invariant h')"
proof -
  let ?n = "length (heap h)"
  let ?xs = "heap h @ [\<lparr>key = k, data = v\<rparr>]"
  let ?ys = "insert_loop (compf h) (d h) ?xs ?n"
  let ?h' = "h\<lparr>heap := ?ys, last_pos_filled := last_pos_filled h + 1\<rparr>"
  have n: "last_pos_filled h = int ?n - 1"
    using c by (simp add: counters_agree_def array_last_pos_filled_def)
  have i: "DHeap_insert h k v = Inr ?h'"
    using a n by (simp add: DHeap_insert_def Let_def array_append_def)
  have ms: "mset ?ys = mset (heap h) + {#\<lparr>key = k, data = v\<rparr>#}"
    by (subst insert_loop_mset) simp_all
  have inv: "heap_invariant ?h'" if tp: "total_preorder (compf h)" and hi: "heap_invariant h"
  proof -
    from hi have hf: "\<And>j. 0 < j \<Longrightarrow> j < ?n \<Longrightarrow>
        compf h (key (heap h ! ((j - 1) div d h))) (key (heap h ! j))"
      unfolding heap_invariant_def by auto
    have "sift_up_inv (compf h) (d h) ?n ?xs"
      unfolding sift_up_inv_def
    proof (intro conjI allI impI)
      fix j assume "0 < j \<and> j < length ?xs \<and> j \<noteq> ?n"
      then have j0: "0 < j" and jn: "j < ?n" by simp_all
      have "(j - 1) div d h < j" using j0 by (rule parent_less)
      with jn hf[OF j0 jn]
      show "compf h (key (?xs ! ((j - 1) div d h))) (key (?xs ! j))"
        by (simp add: nth_append)
    next
      fix j assume "0 < ?n" and j: "0 < j \<and> j < length ?xs \<and> (j - 1) div d h = ?n"
      then have "?n < j" using parent_less[of j "d h"] by simp
      with j have False by simp
      then show "compf h (key (?xs ! ((?n - 1) div d h))) (key (?xs ! j))" ..
    qed
    from insert_loop_heap[OF tp _ this]
    show ?thesis by (simp add: heap_invariant_iff)
  qed
  show ?thesis
    using i ms inv n by (simp add: counters_agree_def array_last_pos_filled_def)
qed

lemma DHeap_extract_empty:
  "counters_agree h \<Longrightarrow> heap h = [] \<Longrightarrow> DHeap_extract h = Inl IndexError"
  by (simp add: DHeap_extract_def counters_agree_def array_last_pos_filled_def)

lemma DHeap_extract_ok:
  assumes c: "counters_agree h" and ne: "heap h \<noteq> []"
  shows "\<exists>h'. DHeap_extract h = Inr (heap h ! 0, h') \<and> compf h' = compf h \<and> d h' = d h \<and>
           heap_property h' = heap_property h \<and> counters_agree h' \<and>
           Suc (length (heap h')) = length (heap h) \<and>
           mset (heap h') = mset (heap h) - {#heap h ! 0#} \<and>
           (total_preorder (compf h) \<longrightarrow> 0 < d h \<longrightarrow> heap_invariant h \<longrightarrow> heap_invariant h')"
proof -
  let ?n = "length (heap h)"
  let ?l = "?n - 1"
  let ?xs1 = "heap_swap (heap h) 0 ?l"
  let ?xs2 = "butlast ?xs1"
  let ?lpf = "last_pos_filled h - 1"
  let ?ys = "heapify_loop (compf h) (d h) ?lpf ?xs2 0"
  let ?h' = "h\<lparr>heap := ?ys, last_pos_filled := ?lpf\<rparr>"
  have n0: "0 < ?n" using ne by simp
  have n: "last_pos_filled h = int ?n - 1"
    using c by (simp add: counters_agree_def array_last_pos_filled_def)
  then have nl: "nat (last_pos_filled h) = ?l" by simp
  have del: "array_delete ?xs1 ?l = ?xs2"
    by (simp add: array_delete_def butlast_conv_take)
  have node: "\<lparr>key = key (heap h ! 0), data = data (heap h ! 0)\<rparr> = heap h ! 0" by simp
  have e: "DHeap_extract h = Inr (heap h ! 0, ?h')"
    using n n0 unfolding DHeap_extract_def Let_def nl del node
    by (simp add: DHeap_heapify_def)
  have "int (?n - 1) = int ?n - 1" using n0 by linarith
  then have lpf2: "?lpf = int (length ?xs2) - 1" using n by simp
  have len: "Suc (length ?ys) = ?n" using n0 by simp
  have ln: "?l < ?n" using n0 by simp
  have ne1: "?xs1 \<noteq> []" using ne by (simp add: heap_swap_def)
  have "last ?xs1 = ?xs1 ! ?l" using last_conv_nth[OF ne1] by simp
  also have "\<dots> = heap h ! 0" using heap_swap_nth[OF n0 ln ln] by simp
  finally have l1: "last ?xs1 = heap h ! 0" .
  have "mset ?xs1 = mset ?xs2 + {#last ?xs1#}"
    using arg_cong[OF append_butlast_last_id[OF ne1], of mset] by simp
  moreover have "mset ?xs1 = mset (heap h)" using n0 by (intro heap_swap_mset) simp_all
  ultimately have "mset (heap h) = add_mset (heap h ! 0) (mset ?xs2)" using l1 by simp
  then have ms2: "mset ?xs2 = mset (heap h) - {#heap h ! 0#}" by simp
  have ms: "mset ?ys = mset (heap h) - {#heap h ! 0#}"
    using heapify_loop_mset[OF lpf2] ms2 by simp
  have inv: "heap_invariant ?h'"
    if tp: "total_preorder (compf h)" and a: "0 < d h" and hi: "heap_invariant h"
  proof -
    from hi have hf: "\<And>j. 0 < j \<Longrightarrow> j < ?n \<Longrightarrow>
        compf h (key (heap h ! ((j - 1) div d h))) (key (heap h ! j))"
      unfolding heap_invariant_def by auto
    have "sift_down_inv (compf h) (d h) 0 0 ?xs2"
      unfolding sift_down_inv_def
    proof (intro conjI allI impI)
      fix j assume "0 < j \<and> j < length ?xs2 \<and> 0 \<le> (j - 1) div d h \<and> (j - 1) div d h \<noteq> 0"
      then have j0: "0 < j" and jl: "j < ?l" and p0: "(j - 1) div d h \<noteq> 0" by simp_all
      have pj: "(j - 1) div d h < j" using j0 by (rule parent_less)
      have jn: "j < ?n" and pn: "(j - 1) div d h < ?n" and pl: "(j - 1) div d h < ?l"
        using jl pj by simp_all
      have "?xs2 ! j = heap h ! j"
        using j0 jl heap_swap_nth[OF n0 ln jn] by (simp add: nth_butlast)
      moreover have "?xs2 ! ((j - 1) div d h) = heap h ! ((j - 1) div d h)"
        using p0 pl heap_swap_nth[OF n0 ln pn] by (simp add: nth_butlast)
      ultimately show "compf h (key (?xs2 ! ((j - 1) div d h))) (key (?xs2 ! j))"
        using hf[OF j0] jl by simp
    next
      fix j assume "0 < (0::nat) \<and> 0 \<le> (0 - 1) div d h"
      then have False by simp
      then show "compf h (key (?xs2 ! ((0 - 1) div d h))) (key (?xs2 ! j))" ..
    qed
    from heapify_loop_heap[OF tp a lpf2 le_refl this]
    show ?thesis by (simp add: heap_invariant_iff)
  qed
  show ?thesis
    using e len ms inv n n0
    by (simp add: counters_agree_def array_last_pos_filled_def del: heap_swap_length)
qed

lemma heap_root_dominates:
  assumes tp: "total_preorder cmp" and hf: "heap_from cmp a 0 xs"
  shows "j < length xs \<Longrightarrow> cmp (key (xs ! 0)) (key (xs ! j))"
proof (induction j rule: less_induct)
  case (less j)
  show ?case
  proof (cases "j = 0")
    case True
    then show ?thesis using total_preorder_refl[OF tp] by simp
  next
    case False
    then have j0: "0 < j" by simp
    then have pj: "(j - 1) div a < j" by (rule parent_less)
    with less.prems have "(j - 1) div a < length xs" by simp
    from less.IH[OF pj this] have "cmp (key (xs ! 0)) (key (xs ! ((j - 1) div a)))" .
    moreover have "cmp (key (xs ! ((j - 1) div a))) (key (xs ! j))"
      using hf j0 less.prems unfolding heap_from_def by simp
    ultimately show ?thesis by (rule total_preorder_trans[OF tp])
  qed
qed

lemma heap_root_dominates_mset:
  assumes tp: "total_preorder (compf h)" and hi: "heap_invariant h" and ne: "heap h \<noteq> []"
    and x: "x \<in># mset (heap h)"
  shows "compf h (key (heap h ! 0)) (key x)"
proof -
  from x have "x \<in> set (heap h)" by simp
  then obtain j where "j < length (heap h)" and "heap h ! j = x" by (auto simp: in_set_conv_nth)
  with heap_root_dominates[OF tp hi[unfolded heap_invariant_iff], of j] show ?thesis by simp
qed

lemma insert_all_ok:
  "counters_agree h \<Longrightarrow> 0 < d h \<Longrightarrow>
   \<exists>h'. insert_all h kvs = Inr h' \<and> compf h' = compf h \<and> d h' = d h \<and>
        heap_property h' = heap_property h \<and> counters_agree h' \<and>
        mset (heap h') = mset (heap h) + mset (map (\<lambda>(k, v). \<lparr>key = k, data = v\<rparr>) kvs) \<and>
        (total_preorder (compf h) \<longrightarrow> heap_invariant h \<longrightarrow> heap_invariant h')"
proof (induction kvs arbitrary: h)
  case Nil
  then show ?case by simp
next
  case (Cons kv kvs)
  obtain k v where kv: "kv = (k, v)" by (cases kv)
  from DHeap_insert_ok[OF Cons.prems, of k v]
  obtain h1 where i: "DHeap_insert h k v = Inr h1" and c1: "compf h1 = compf h"
    and d1: "d h1 = d h" and p1: "heap_property h1 = heap_property h"
    and a1: "counters_agree h1"
    and m1: "mset (heap h1) = mset (heap h) + {#\<lparr>key = k, data = v\<rparr>#}"
    and i1: "total_preorder (compf h) \<longrightarrow> heap_invariant h \<longrightarrow> heap_invariant h1"
    by blast
  from Cons.prems d1 have "0 < d h1" by simp
  from Cons.IH[OF a1 this]
  obtain h' where r: "insert_all h1 kvs = Inr h'" and c2: "compf h' = compf h1"
    and d2: "d h' = d h1" and p2: "heap_property h' = heap_property h1"
    and a2: "counters_agree h'"
    and m2: "mset (heap h') = mset (heap h1) + mset (map (\<lambda>(k, v). \<lparr>key = k, data = v\<rparr>) kvs)"
    and i2: "total_preorder (compf h1) \<longrightarrow> heap_invariant h1 \<longrightarrow> heap_invariant h'"
    by blast
  show ?case
    using i r c1 c2 d1 d2 p1 p2 a2 m1 m2 i1 i2 by (simp add: kv)
qed

lemma extract_n_ok:
  "counters_agree h \<Longrightarrow> n \<le> length (heap h) \<Longrightarrow>
   \<exists>nodes h'. extract_n h n = Inr (nodes, h') \<and> length nodes = n \<and>
        compf h' = compf h \<and> d h' = d h \<and> counters_agree h' \<and>
        length (heap h') + n = length (heap h) \<and>
        mset nodes + mset (heap h') = mset (heap h) \<and>
        (total_preorder (compf h) \<longrightarrow> 0 < d h \<longrightarrow> heap_invariant h \<longrightarrow>
           sorted_wrt (\<lambda>x y. compf h (key x) (key y)) nodes \<and> heap_invariant h')"
proof (induction n arbitrary: h)
  case 0
  then show ?case by simp
next
  case (Suc n)
  from Suc.prems have ne: "heap h \<noteq> []" by auto
  from DHeap_extract_ok[OF Suc.prems(1) ne]
  obtain h1 where e: "DHeap_extract h = Inr (heap h ! 0, h1)" and c1: "compf h1 = compf h"
    and d1: "d h1 = d h" and a1: "counters_agree h1"
    and l1: "Suc (length (heap h1)) = length (heap h)"
    and m1: "mset (heap h1) = mset (heap h) - {#heap h ! 0#}"
    and i1: "total_preorder (compf h) \<longrightarrow> 0 < d h \<longrightarrow> heap_invariant h \<longrightarrow> heap_invariant h1"
    by (elim exE conjE) (rule that)
  from Suc.prems l1 have "n \<le> length (heap h1)" by simp
  from Suc.IH[OF a1 this]
  obtain nodes h' where r: "extract_n h1 n = Inr (nodes, h')" and ln: "length nodes = n"
    and c2: "compf h' = compf h1" and d2: "d h' = d h1" and a2: "counters_agree h'"
    and l2: "length (heap h') + n = length (heap h1)"
    and m2: "mset nodes + mset (heap h') = mset (heap h1)"
    and i2: "total_preorder (compf h1) \<longrightarrow> 0 < d h1 \<longrightarrow> heap_invariant h1 \<longrightarrow>
           sorted_wrt (\<lambda>x y. compf h1 (key x) (key y)) nodes \<and> heap_invariant h'"
    by (elim exE conjE) (rule that)
  have root: "heap h ! 0 \<in># mset (heap h)" using ne by simp
  have m: "mset (heap h ! 0 # nodes) + mset (heap h') = mset (heap h)"
    using m1 m2 root by simp
  have s: "sorted_wrt (\<lambda>x y. compf h (key x) (key y)) (heap h ! 0 # nodes) \<and> heap_invariant h'"
    if tp: "total_preorder (compf h)" and a: "0 < d h" and hi: "heap_invariant h"
  proof -
    from i1 tp a hi have hi1: "heap_invariant h1" by simp
    with i2 tp a c1 d1
    have sn: "sorted_wrt (\<lambda>x y. compf h (key x) (key y)) nodes" and hi': "heap_invariant h'"
      by simp_all
    have "compf h (key (heap h ! 0)) (key x)" if "x \<in> set nodes" for x
    proof -
      from that have "x \<in># mset nodes + mset (heap h')" by simp
      then have "x \<in># mset (heap h1)" unfolding m2 .
      then have "x \<in># mset (heap h)" unfolding m1 by (rule in_diffD)
      then show ?thesis by (rule heap_root_dominates_mset[OF tp hi ne])
    qed
    with sn hi' show ?thesis by simp
  qed
  show ?case
    using e r ln c1 c2 d1 d2 a2 l1 l2 m s by simp
qed

section \<open>Evaluating the heap operations on concrete heaps\<close>

lemma py_range_rec: "py_range lo hi = (if lo < hi then lo # py_range (Suc lo) hi else [])"
  unfolding py_range_def by (rule upt_rec)

lemmas heap_eval =
  DHeap_new_def DHeap_build_def DHeap_heapify_def DHeap_insert_def DHeap_extract_def
  heapify_loop.simps insert_loop.simps py_range_rec array_last_pos_filled_def
  array_append_def array_delete_def heap_swap_def Let_def

lemma example_max_heap_new:
  "DHeap_new None ''max'' 2 = Inr example_max_heap0"
  by (simp add: heap_eval example_max_heap0_def)

lemma example_max_heap_insert1:
  "DHeap_insert example_max_heap0 3 ''x'' = Inr example_max_heap1"
  by (simp add: heap_eval example_max_heap0_def example_max_heap1_def)

lemma example_max_heap_insert2:
  "DHeap_insert example_max_heap1 8 ''y'' = Inr example_max_heap2"
  by (simp add: heap_eval example_max_heap1_def example_max_heap2_def)

lemma example_max_heap_extract:
  "DHeap_extract example_max_heap2 = Inr (\<lparr>key = 8, data = ''y''\<rparr>, example_max_heap1)"
  by (simp add: heap_eval example_max_heap1_def example_max_heap2_def)

lemma example_tie_heap_extract:
  "DHeap_extract example_tie_heap = Inr (\<lparr>key = 1, data = ''x''\<rparr>, example_tie_heap_after)"
  by (simp add: heap_eval example_tie_heap_def example_tie_heap_after_def)

lemma example_extraction_order_min:
  "(case DHeap_new None ''min'' 3 of
      Inl err \<Rightarrow> Inl err
    | Inr h0 \<Rightarrow>
        (case insert_all h0 [(4::int, ''a''), (2, ''b''), (9, ''c''), (4, ''d'')] of
           Inl err \<Rightarrow> Inl err
         | Inr h1 \<Rightarrow>
             (case extract_n h1 4 of
                Inl err \<Rightarrow> Inl err
              | Inr (nodes, h2) \<Rightarrow> Inr (nodes, heap h2)))) =
   Inr ([\<lparr>key = 2, data = ''b''\<rparr>, \<lparr>key = 4, data = ''a''\<rparr>, \<lparr>key = 4, data = ''d''\<rparr>,
         \<lparr>key = 9, data = ''c''\<rparr>], [])"
  by code_simp

lemma example_extraction_order_max:
  "(case DHeap_new None ''max'' 3 of
      Inl err \<Rightarrow> Inl err
    | Inr h0 \<Rightarrow>
        (case insert_all h0 [(4::int, ''a''), (2, ''b''), (9, ''c''), (4, ''d'')] of
           Inl err \<Rightarrow> Inl err
         | Inr h1 \<Rightarrow>
             (case extract_n h1 4 of
                Inl err \<Rightarrow> Inl err
              | Inr (nodes, h2) \<Rightarrow> Inr (map key nodes, heap h2)))) =
   Inr ([9, 4, 4, 2], [])"
  by code_simp

section \<open>The claims about the heap\<close>

text \<open>
  C1.  For every heap built by the constructor with an arity \<open>d \<ge> 2\<close> and the property
  \<^verbatim>\<open>'min'\<close> or \<^verbatim>\<open>'max'\<close> (from any initial elements), and every sequence of insert and
  extract calls applied to it, the heap invariant holds after each call: the comparator
  (\<open>\<le>\<close> for min, \<open>\<ge>\<close> for max) holds between the key at the parent \<open>(i - 1) div d\<close> and
  the key at every non-root occupied index \<open>i\<close>.
\<close>

theorem heap_invariant_preserved:
  fixes elements :: "('k::linorder, 'v) TreeNode list option"
  assumes a: "2 \<le> a" and hp: "hp = ''min'' \<or> hp = ''max''"
  shows "\<exists>h0. DHeap_new elements hp a = Inr h0 \<and>
           (\<forall>h. heap_ops_reach h0 h \<longrightarrow>
              heap_invariant h \<and> d h = a \<and>
              compf h = (if hp = ''min'' then (\<lambda>p c. p \<le> c) else (\<lambda>p c. p \<ge> c)))"
proof -
  let ?cmp = "if hp = ''min'' then (\<lambda>p c :: 'k. p \<le> c) else (\<lambda>p c. p \<ge> c)"
  from a have a0: "0 < a" by simp
  from DHeap_new_ok[OF a0 hp, of elements]
  obtain h0 where n: "DHeap_new elements hp a = Inr h0" and c0: "compf h0 = ?cmp"
    and d0: "d h0 = a" and g0: "counters_agree h0" and i0: "heap_invariant h0"
    by (elim exE conjE) (rule that)
  have tp: "total_preorder ?cmp"
    by (cases "hp = ''min''") (simp_all add: total_preorder_le total_preorder_ge)
  have "heap_invariant h \<and> d h = a \<and> compf h = ?cmp \<and> counters_agree h"
    if "heap_ops_reach h0 h" for h
    using that
  proof (induction rule: heap_ops_reach.induct)
    case reach_start
    show ?case using c0 d0 g0 i0 by simp
  next
    case (reach_insert h k v h')
    then have g: "counters_agree h" and dh: "0 < d h" and ch: "compf h = ?cmp"
      and ih: "heap_invariant h" using a0 by simp_all
    from DHeap_insert_ok[OF g dh, of k v] reach_insert.hyps(2) tp ch ih
    show ?case using reach_insert.IH by auto
  next
    case (reach_extract h n h')
    then have g: "counters_agree h" and dh: "0 < d h" and ch: "compf h = ?cmp"
      and ih: "heap_invariant h" using a0 by simp_all
    have ne: "heap h \<noteq> []"
      using DHeap_extract_empty[OF g] reach_extract.hyps(2) by auto
    from DHeap_extract_ok[OF g ne] reach_extract.hyps(2) tp ch ih dh
    show ?case using reach_extract.IH by auto
  qed
  with n show ?thesis by blast
qed

theorem heap_invariant_preserved_witness:
  "DHeap_new None ''max'' 2 = Inr example_max_heap0 \<and>
   DHeap_insert example_max_heap0 3 ''x'' = Inr example_max_heap1 \<and>
   DHeap_insert example_max_heap1 8 ''y'' = Inr example_max_heap2 \<and>
   DHeap_extract example_max_heap2 = Inr (\<lparr>key = 8, data = ''y''\<rparr>, example_max_heap1) \<and>
   heap_ops_reach example_max_heap0 example_max_heap2 \<and>
   heap_invariant example_max_heap2 \<and>
   heap_ops_reach example_max_heap0 example_max_heap1 \<and>
   heap_invariant example_max_heap1"
proof -
  have r1: "heap_ops_reach example_max_heap0 example_max_heap1"
    by (rule reach_insert[OF reach_start example_max_heap_insert1])
  have r2: "heap_ops_reach example_max_heap0 example_max_heap2"
    by (rule reach_insert[OF r1 example_max_heap_insert2])
  have r3: "heap_ops_reach example_max_heap0 example_max_heap1"
    by (rule reach_extract[OF r2 example_max_heap_extract])
  from heap_invariant_preserved[of 2 "''max''" "None :: (int, string) TreeNode list option"]
  have "\<forall>h. heap_ops_reach example_max_heap0 h \<longrightarrow> heap_invariant h"
    by (simp add: example_max_heap_new)
  with r2 r3 show ?thesis
    using example_max_heap_new example_max_heap_insert1 example_max_heap_insert2
      example_max_heap_extract by blast
qed

text \<open>
  C7.  For every list of zero or more initial nodes (or no list at all), every arity
  \<open>d \<ge> 2\<close> and heap property \<^verbatim>\<open>'min'\<close> or \<^verbatim>\<open>'max'\<close>, the constructor returns a heap that
  satisfies the heap invariant at every occupied index (with \<open>\<le>\<close> for min and \<open>\<ge>\<close> for
  max) and holds exactly the given nodes; it gets there by \<^verbatim>\<open>_build\<close>, which sifts down
  from index \<open>n div d\<close> to the root.
\<close>

theorem build_establishes_heap_invariant:
  fixes elements :: "('k::linorder, 'v) TreeNode list option"
  assumes "2 \<le> a" and "hp = ''min'' \<or> hp = ''max''"
  shows "\<exists>h. DHeap_new elements hp a = Inr h \<and> heap_invariant h \<and>
           compf h = (if hp = ''min'' then (\<lambda>p c. p \<le> c) else (\<lambda>p c. p \<ge> c)) \<and>
           d h = a \<and> counters_agree h \<and>
           mset (heap h) = mset (case elements of None \<Rightarrow> [] | Some es \<Rightarrow> es)"
proof -
  from assms(1) have "0 < a" by simp
  from DHeap_new_ok[OF this assms(2), of elements] show ?thesis by blast
qed

theorem build_establishes_heap_invariant_witness:
  "\<exists>h. DHeap_new (Some [\<lparr>key = 7::int, data = ''a''\<rparr>, \<lparr>key = 5, data = ''b''\<rparr>,
                          \<lparr>key = 5, data = ''c''\<rparr>, \<lparr>key = 1, data = ''d''\<rparr>]) ''min'' 3 = Inr h \<and>
       heap_invariant h \<and> compf h = (\<lambda>p c. p \<le> c) \<and> d h = 3 \<and> counters_agree h \<and>
       mset (heap h) = {#\<lparr>key = 7, data = ''a''\<rparr>, \<lparr>key = 5, data = ''b''\<rparr>,
                         \<lparr>key = 5, data = ''c''\<rparr>, \<lparr>key = 1, data = ''d''\<rparr>#}"
  using build_establishes_heap_invariant[of 3 "''min''"
      "Some [\<lparr>key = 7::int, data = ''a''\<rparr>, \<lparr>key = 5, data = ''b''\<rparr>,
             \<lparr>key = 5, data = ''c''\<rparr>, \<lparr>key = 1, data = ''d''\<rparr>]"]
  by simp

text \<open>
  C10.  On every heap whose two counters agree (every heap the constructor, insert and
  extract produce) and whose arity is at least 2, \<^verbatim>\<open>insert(key, data)\<close> returns without
  an error and the multiset of stored nodes grows by exactly the new (key, data) node;
  and \<^verbatim>\<open>extract()\<close> on a non-empty heap returns the root node and the multiset of stored
  nodes shrinks by exactly that node.  Both keep the counters in agreement, so nothing
  else is created, lost or altered.
\<close>

theorem insert_extract_multiset:
  assumes "counters_agree h" and "2 \<le> d h"
  shows "(\<exists>h'. DHeap_insert h k v = Inr h' \<and>
              mset (heap h') = mset (heap h) + {#\<lparr>key = k, data = v\<rparr>#} \<and>
              counters_agree h' \<and> d h' = d h \<and> compf h' = compf h) \<and>
         (heap h \<noteq> [] \<longrightarrow>
            (\<exists>n h'. DHeap_extract h = Inr (n, h') \<and> n = heap h ! 0 \<and>
                 mset (heap h') = mset (heap h) - {#n#} \<and>
                 counters_agree h' \<and> d h' = d h \<and> compf h' = compf h))"
proof -
  from assms(2) have "0 < d h" by simp
  from DHeap_insert_ok[OF assms(1) this, of k v]
  have "\<exists>h'. DHeap_insert h k v = Inr h' \<and>
              mset (heap h') = mset (heap h) + {#\<lparr>key = k, data = v\<rparr>#} \<and>
              counters_agree h' \<and> d h' = d h \<and> compf h' = compf h"
    by (elim exE conjE) auto
  moreover have "\<exists>n h'. DHeap_extract h = Inr (n, h') \<and> n = heap h ! 0 \<and>
                 mset (heap h') = mset (heap h) - {#n#} \<and>
                 counters_agree h' \<and> d h' = d h \<and> compf h' = compf h"
    if "heap h \<noteq> []"
    using DHeap_extract_ok[OF assms(1) that] by (elim exE conjE) auto
  ultimately show ?thesis by blast
qed

theorem insert_extract_multiset_witness:
  "counters_agree example_max_heap2 \<and> 2 \<le> d example_max_heap2 \<and>
   heap example_max_heap2 \<noteq> [] \<and>
   (\<exists>h'. DHeap_insert example_max_heap2 5 ''z'' = Inr h' \<and>
        mset (heap h') = {#\<lparr>key = 8, data = ''y''\<rparr>, \<lparr>key = 3, data = ''x''\<rparr>,
                           \<lparr>key = 5, data = ''z''\<rparr>#}) \<and>
   (\<exists>n h'. DHeap_extract example_max_heap2 = Inr (n, h') \<and> n = \<lparr>key = 8, data = ''y''\<rparr> \<and>
        mset (heap h') = {#\<lparr>key = 3, data = ''x''\<rparr>#})"
proof -
  have c: "counters_agree example_max_heap2" and dd: "2 \<le> d example_max_heap2"
    and ne: "heap example_max_heap2 \<noteq> []"
    by (simp_all add: counters_agree_def array_last_pos_filled_def example_max_heap2_def)
  from insert_extract_multiset[OF c dd, of 5 "''z''"] ne
  show ?thesis using c dd by (auto simp add: example_max_heap2_def)
qed

lemma insert_then_extract_all:
  fixes kvs :: "('k::linorder \<times> 'v) list"
  assumes a: "0 < a" and hp: "hp = ''min'' \<or> hp = ''max''"
    and el: "elements = None \<or> elements = Some []"
  shows "\<exists>h0 h1 nodes h2.
           DHeap_new elements hp a = Inr h0 \<and> heap h0 = [] \<and> counters_agree h0 \<and>
           insert_all h0 kvs = Inr h1 \<and>
           extract_n h1 (length kvs) = Inr (nodes, h2) \<and> heap h2 = [] \<and> counters_agree h2 \<and>
           sorted_wrt (\<lambda>x y. (if hp = ''min'' then (\<lambda>p c. p \<le> c) else (\<lambda>p c. p \<ge> c))
                              (key x) (key y)) nodes \<and>
           mset nodes = mset (map (\<lambda>(k, v). \<lparr>key = k, data = v\<rparr>) kvs)"
proof -
  let ?cmp = "if hp = ''min'' then (\<lambda>p c :: 'k. p \<le> c) else (\<lambda>p c. p \<ge> c)"
  have tp: "total_preorder ?cmp"
    by (cases "hp = ''min''") (simp_all add: total_preorder_le total_preorder_ge)
  from DHeap_new_ok[OF a hp, of elements]
  obtain h0 where n: "DHeap_new elements hp a = Inr h0" and c0: "compf h0 = ?cmp"
    and d0: "d h0 = a" and g0: "counters_agree h0" and i0: "heap_invariant h0"
    and m0: "mset (heap h0) = mset (case elements of None \<Rightarrow> [] | Some es \<Rightarrow> es)"
    by (elim exE conjE) (rule that)
  from m0 el have e0: "heap h0 = []" by auto
  from a d0 have dh0: "0 < d h0" by simp
  from insert_all_ok[OF g0 dh0, of kvs]
  obtain h1 where i: "insert_all h0 kvs = Inr h1" and c1: "compf h1 = compf h0"
    and d1: "d h1 = d h0" and g1: "counters_agree h1"
    and m1: "mset (heap h1) = mset (heap h0) + mset (map (\<lambda>(k, v). \<lparr>key = k, data = v\<rparr>) kvs)"
    and i1: "total_preorder (compf h0) \<longrightarrow> heap_invariant h0 \<longrightarrow> heap_invariant h1"
    by (elim exE conjE) (rule that)
  from m1 e0 have m1': "mset (heap h1) = mset (map (\<lambda>(k, v). \<lparr>key = k, data = v\<rparr>) kvs)" by simp
  from arg_cong[OF this, of size] have l1: "length (heap h1) = length kvs" by simp
  then have "length kvs \<le> length (heap h1)" by simp
  from extract_n_ok[OF g1 this]
  obtain nodes h2 where e: "extract_n h1 (length kvs) = Inr (nodes, h2)"
    and g2: "counters_agree h2"
    and l2: "length (heap h2) + length kvs = length (heap h1)"
    and m2: "mset nodes + mset (heap h2) = mset (heap h1)"
    and s2: "total_preorder (compf h1) \<longrightarrow> 0 < d h1 \<longrightarrow> heap_invariant h1 \<longrightarrow>
           sorted_wrt (\<lambda>x y. compf h1 (key x) (key y)) nodes \<and> heap_invariant h2"
    by (elim exE conjE) (rule that)
  from l1 l2 have e2: "heap h2 = []" by simp
  with m2 m1' have mn: "mset nodes = mset (map (\<lambda>(k, v). \<lparr>key = k, data = v\<rparr>) kvs)" by simp
  from i1 tp c0 i0 have "heap_invariant h1" by simp
  with s2 tp c0 c1 d1 dh0
  have "sorted_wrt (\<lambda>x y. ?cmp (key x) (key y)) nodes" by simp
  with n e0 g0 i e e2 g2 mn show ?thesis by blast
qed

lemma PriorityQueue_new_ok:
  fixes cmp_kw :: "('k::linorder \<Rightarrow> 'k \<Rightarrow> bool) option"
  shows "\<exists>q :: ('k, 'v) BinaryHeapPriorityQueue.
        PriorityQueue_new ''binary_heap'' cmp_kw = Inr q \<and> heap (items q) = [] \<and>
        counters_agree (items q) \<and> d (items q) = 2 \<and>
        compf (items q) = (case cmp_kw of None \<Rightarrow> (\<lambda>u v. u < v) | Some c \<Rightarrow> c)"
proof -
  have "0 < (2::nat)" by simp
  from DHeap_new_ok[OF this disjI1[OF refl], of "None :: ('k, 'v) TreeNode list option"]
  obtain h :: "('k, 'v) DHeap" where n: "DHeap_new None ''min'' 2 = Inr h" and d0: "d h = 2"
    and g0: "counters_agree h" and m0: "mset (heap h) = mset []"
    by (elim exE conjE) simp
  from m0 have "heap h = []" by simp
  with n d0 g0 show ?thesis
    by (simp add: PriorityQueue_new_def BinaryHeapPriorityQueue_new_def BinaryHeap_new_def
        Let_def counters_agree_def)
qed

text \<open>
  C6.  \<^verbatim>\<open>extract()\<close> on a freshly built empty heap, and \<^verbatim>\<open>peek\<close> and \<^verbatim>\<open>pop()\<close> on a
  fresh priority queue, fail with \<^verbatim>\<open>IndexError\<close> (the spec's \<open>EmptyHeap\<close>) and return no
  value; and for every list of \<open>k\<close> (key, data) pairs, inserting them into a freshly
  built empty heap and extracting \<open>k\<close> times succeeds and leaves \<^verbatim>\<open>is_empty\<close> true again.
\<close>

theorem empty_heap_errors_and_emptiness:
  fixes kvs :: "('k::linorder \<times> 'v) list"
    and cmp_kw :: "('p::linorder \<Rightarrow> 'p \<Rightarrow> bool) option"
  assumes "2 \<le> a" and "hp = ''min'' \<or> hp = ''max''"
  shows "(\<exists>h0 h1 nodes h2.
            DHeap_new None hp a = Inr h0 \<and> DHeap_is_empty h0 \<and>
            DHeap_extract h0 = Inl IndexError \<and>
            insert_all h0 kvs = Inr h1 \<and>
            extract_n h1 (length kvs) = Inr (nodes, h2) \<and>
            DHeap_is_empty h2 \<and> DHeap_extract h2 = Inl IndexError) \<and>
         (\<exists>q :: ('p, 'w) BinaryHeapPriorityQueue.
            PriorityQueue_new ''binary_heap'' cmp_kw = Inr q \<and> is_empty q \<and>
            peek q = Inl IndexError \<and> pop q = Inl IndexError)"
proof -
  from assms(1) have a: "0 < a" by simp
  from insert_then_extract_all[OF a assms(2) disjI1[OF refl], of kvs]
  obtain h0 h1 nodes h2 where "DHeap_new None hp a = Inr h0" and "heap h0 = []"
    and "counters_agree h0" and "insert_all h0 kvs = Inr h1"
    and "extract_n h1 (length kvs) = Inr (nodes, h2)" and "heap h2 = []"
    and "counters_agree h2"
    by (elim exE conjE) simp
  then have "\<exists>h0 h1 nodes h2.
            DHeap_new None hp a = Inr h0 \<and> DHeap_is_empty h0 \<and>
            DHeap_extract h0 = Inl IndexError \<and>
            insert_all h0 kvs = Inr h1 \<and>
            extract_n h1 (length kvs) = Inr (nodes, h2) \<and>
            DHeap_is_empty h2 \<and> DHeap_extract h2 = Inl IndexError"
    using DHeap_extract_empty[of h0] DHeap_extract_empty[of h2]
    by (auto simp add: DHeap_is_empty_def array_last_pos_filled_def)
  moreover
  from PriorityQueue_new_ok[where ?'v = 'w, of cmp_kw]
  obtain q :: "('p, 'w) BinaryHeapPriorityQueue"
    where "PriorityQueue_new ''binary_heap'' cmp_kw = Inr q" and "heap (items q) = []"
      and "counters_agree (items q)"
    by (elim exE conjE) simp
  then have "\<exists>q :: ('p, 'w) BinaryHeapPriorityQueue.
            PriorityQueue_new ''binary_heap'' cmp_kw = Inr q \<and> is_empty q \<and>
            peek q = Inl IndexError \<and> pop q = Inl IndexError"
    using DHeap_extract_empty[of "items q"]
    by (auto simp add: is_empty_def peek_def pop_def DHeap_is_empty_def array_last_pos_filled_def)
  ultimately show ?thesis by blast
qed

theorem empty_heap_errors_and_emptiness_witness:
  "(\<exists>h0 h1 nodes h2.
      DHeap_new None ''min'' 3 = Inr h0 \<and> DHeap_is_empty h0 \<and>
      DHeap_extract h0 = Inl IndexError \<and>
      insert_all h0 [(4::int, ''a''), (2, ''b''), (9, ''c'')] = Inr h1 \<and>
      extract_n h1 (length [(4::int, ''a''), (2, ''b''), (9, ''c'')]) = Inr (nodes, h2) \<and>
      DHeap_is_empty h2 \<and> DHeap_extract h2 = Inl IndexError) \<and>
   (\<exists>q :: (int, string) BinaryHeapPriorityQueue.
      PriorityQueue_new ''binary_heap'' None = Inr q \<and> is_empty q \<and>
      peek q = Inl IndexError \<and> pop q = Inl IndexError)"
proof -
  have a: "(2::nat) \<le> 3" by simp
  have hp: "''min'' = ''min'' \<or> ''min'' = ''max''" by simp
  show ?thesis by (rule empty_heap_errors_and_emptiness[OF a hp])
qed

text \<open>
  C2.  For every list of \<open>n\<close> (key, data) pairs and every arity \<open>d \<ge> 2\<close>, inserting them
  one by one into an initially empty heap and then extracting \<open>n\<close> times succeeds, and
  the extracted keys are the inserted keys in ascending order for a \<^verbatim>\<open>'min'\<close> heap and in
  descending order for a \<^verbatim>\<open>'max'\<close> heap.
\<close>

theorem extraction_order_sorted:
  fixes kvs :: "('k::linorder \<times> 'v) list"
  assumes "2 \<le> a"
  shows "(\<exists>h0 h1 nodes h2.
            DHeap_new None ''min'' a = Inr h0 \<and> insert_all h0 kvs = Inr h1 \<and>
            extract_n h1 (length kvs) = Inr (nodes, h2) \<and>
            sorted (map key nodes) \<and> mset (map key nodes) = mset (map fst kvs)) \<and>
         (\<exists>h0 h1 nodes h2.
            DHeap_new None ''max'' a = Inr h0 \<and> insert_all h0 kvs = Inr h1 \<and>
            extract_n h1 (length kvs) = Inr (nodes, h2) \<and>
            sorted (rev (map key nodes)) \<and> mset (map key nodes) = mset (map fst kvs))"
proof -
  from assms have a: "0 < a" by simp
  have keys: "mset (map key nodes) = mset (map fst kvs)"
    if "mset nodes = mset (map (\<lambda>(k, v). \<lparr>key = k, data = v\<rparr>) kvs)"
    for nodes :: "('k, 'v) TreeNode list"
  proof -
    have "mset (map key nodes) = image_mset key (mset nodes)" by simp
    also have "\<dots> = image_mset key (mset (map (\<lambda>(k, v). \<lparr>key = k, data = v\<rparr>) kvs))"
      using that by simp
    also have "\<dots> = mset (map fst kvs)"
      by (simp add: multiset.map_comp comp_def case_prod_beta)
    finally show ?thesis .
  qed
  from insert_then_extract_all[OF a disjI1[OF refl] disjI1[OF refl], of kvs]
  obtain h0 h1 nodes h2 where "DHeap_new None ''min'' a = Inr h0"
    and "insert_all h0 kvs = Inr h1" and "extract_n h1 (length kvs) = Inr (nodes, h2)"
    and "sorted_wrt (\<lambda>x y. key x \<le> key y) nodes"
    and "mset nodes = mset (map (\<lambda>(k, v). \<lparr>key = k, data = v\<rparr>) kvs)"
    by (elim exE conjE) simp
  then have 1: "\<exists>h0 h1 nodes h2.
            DHeap_new None ''min'' a = Inr h0 \<and> insert_all h0 kvs = Inr h1 \<and>
            extract_n h1 (length kvs) = Inr (nodes, h2) \<and>
            sorted (map key nodes) \<and> mset (map key nodes) = mset (map fst kvs)"
    using keys[of nodes] by (auto simp add: sorted_map)
  from insert_then_extract_all[OF a disjI2[OF refl] disjI1[OF refl], of kvs]
  obtain h0 h1 nodes h2 where "DHeap_new None ''max'' a = Inr h0"
    and "insert_all h0 kvs = Inr h1" and "extract_n h1 (length kvs) = Inr (nodes, h2)"
    and "sorted_wrt (\<lambda>x y. key x \<ge> key y) nodes"
    and "mset nodes = mset (map (\<lambda>(k, v). \<lparr>key = k, data = v\<rparr>) kvs)"
    by (elim exE conjE) simp
  then have 2: "\<exists>h0 h1 nodes h2.
            DHeap_new None ''max'' a = Inr h0 \<and> insert_all h0 kvs = Inr h1 \<and>
            extract_n h1 (length kvs) = Inr (nodes, h2) \<and>
            sorted (rev (map key nodes)) \<and> mset (map key nodes) = mset (map fst kvs)"
    using keys[of nodes] by (auto simp add: sorted_wrt_rev sorted_wrt_map rev_map[symmetric])
  from 1 2 show ?thesis by blast
qed

theorem extraction_order_sorted_witness:
  "((\<exists>h0 h1 nodes h2.
      DHeap_new None ''min'' 3 = Inr h0 \<and>
      insert_all h0 [(4::int, ''a''), (2, ''b''), (9, ''c''), (4, ''d'')] = Inr h1 \<and>
      extract_n h1 (length [(4::int, ''a''), (2, ''b''), (9, ''c''), (4, ''d'')]) = Inr (nodes, h2) \<and>
      sorted (map key nodes) \<and>
      mset (map key nodes) = mset (map fst [(4::int, ''a''), (2, ''b''), (9, ''c''), (4, ''d'')])) \<and>
   (\<exists>h0 h1 nodes h2.
      DHeap_new None ''max'' 3 = Inr h0 \<and>
      insert_all h0 [(4::int, ''a''), (2, ''b''), (9, ''c''), (4, ''d'')] = Inr h1 \<and>
      extract_n h1 (length [(4::int, ''a''), (2, ''b''), (9, ''c''), (4, ''d'')]) = Inr (nodes, h2) \<and>
      sorted (rev (map key nodes)) \<and>
      mset (map key nodes) = mset (map fst [(4::int, ''a''), (2, ''b''), (9, ''c''), (4, ''d'')]))) \<and>
   (case DHeap_new None ''max'' 3 of
      Inl err \<Rightarrow> Inl err
    | Inr h0 \<Rightarrow>
        (case insert_all h0 [(4::int, ''a''), (2, ''b''), (9, ''c''), (4, ''d'')] of
           Inl err \<Rightarrow> Inl err
         | Inr h1 \<Rightarrow>
             (case extract_n h1 4 of
                Inl err \<Rightarrow> Inl err
              | Inr (nodes, h2) \<Rightarrow> Inr (map key nodes, heap h2)))) =
   Inr ([9, 4, 4, 2], [])"
proof -
  have a: "(2::nat) \<le> 3" by simp
  show ?thesis
    by (rule conjI, rule extraction_order_sorted[OF a], rule example_extraction_order_max)
qed

lemma heapify_scan_ties_last:
  assumes tp: "total_preorder cmp"
  shows "sorted js \<Longrightarrow> distinct js \<Longrightarrow> j \<in> set js \<Longrightarrow> int j \<le> lpf \<Longrightarrow>
     cmp (key (xs ! j)) (key (xs ! heapify_scan cmp lpf xs js t)) \<Longrightarrow>
     j \<le> heapify_scan cmp lpf xs js t"
proof (induction js arbitrary: t)
  case Nil
  then show ?case by simp
next
  case (Cons j' js)
  show ?case
  proof (cases "int j' \<le> lpf")
    case False
    with Cons.prems have "\<forall>i\<in>set (j' # js). \<not> int i \<le> lpf" by auto
    with Cons.prems show ?thesis by auto
  next
    case True
    let ?t = "if cmp (key (xs ! j')) (key (xs ! t)) then j' else t"
    let ?r = "heapify_scan cmp lpf xs js ?t"
    have req: "heapify_scan cmp lpf xs (j' # js) t = ?r" using True by simp
    from Cons.prems have s: "sorted js" and dj: "distinct js" by simp_all
    show ?thesis
    proof (cases "j = j'")
      case False
      with Cons.prems have "j \<in> set js" by simp
      from Cons.IH[OF s dj this Cons.prems(4), of ?t] Cons.prems(5)
      show ?thesis unfolding req by simp
    next
      case jj: True
      have tie: "cmp (key (xs ! j')) (key (xs ! ?r))" using Cons.prems(5) jj unfolding req by simp
      from heapify_scan_dominates[OF tp s, of xs lpf ?t]
      have rt: "cmp (key (xs ! ?r)) (key (xs ! ?t))" by blast
      have "cmp (key (xs ! j')) (key (xs ! t))"
      proof (rule ccontr)
        assume n: "\<not> cmp (key (xs ! j')) (key (xs ! t))"
        then have "cmp (key (xs ! ?r)) (key (xs ! t))" using rt by simp
        with tie have "cmp (key (xs ! j')) (key (xs ! t))" by (rule total_preorder_trans[OF tp])
        with n show False ..
      qed
      then have t': "?t = j'" by simp
      from heapify_scan_range[of cmp lpf xs js j']
      have "heapify_scan cmp lpf xs js j' = j' \<or> heapify_scan cmp lpf xs js j' \<in> set js" by blast
      moreover have "\<forall>i\<in>set js. j' \<le> i" using Cons.prems(1) by simp
      ultimately have "j' \<le> heapify_scan cmp lpf xs js j'" by auto
      then show ?thesis unfolding req t' using jj by simp
    qed
  qed
qed

lemma heapify_scan_selects:
  fixes xs :: "('k, 'v) TreeNode list" and a i :: nat
  assumes tp: "total_preorder cmp" and n: "lpf = int (length xs) - 1"
    and t: "t = heapify_scan cmp lpf xs (py_range (a * i + 1) (a * i + a + 1)) i"
  shows "(t = i \<or> (a * i + 1 \<le> t \<and> t \<le> a * i + a \<and> t < length xs)) \<and>
         cmp (key (xs ! t)) (key (xs ! i)) \<and>
         (\<forall>j. a * i + 1 \<le> j \<and> j \<le> a * i + a \<and> j < length xs \<longrightarrow>
              cmp (key (xs ! t)) (key (xs ! j)) \<and>
              (cmp (key (xs ! j)) (key (xs ! t)) \<longrightarrow> j \<le> t))"
proof (intro conjI allI impI)
  note sc = heapify_scan_children[OF tp n, of a i, folded t]
  show "t = i \<or> (a * i + 1 \<le> t \<and> t \<le> a * i + a \<and> t < length xs)" by (rule sc(3))
  show "cmp (key (xs ! t)) (key (xs ! i))" by (rule sc(1))
  fix j assume j: "a * i + 1 \<le> j \<and> j \<le> a * i + a \<and> j < length xs"
  then show "cmp (key (xs ! t)) (key (xs ! j))" using sc(2) by blast
  assume tie: "cmp (key (xs ! j)) (key (xs ! t))"
  have s: "sorted (py_range (a * i + 1) (a * i + a + 1))"
    and dj: "distinct (py_range (a * i + 1) (a * i + a + 1))"
    unfolding py_range_def by (rule sorted_upt, rule distinct_upt)
  from j have m: "j \<in> set (py_range (a * i + 1) (a * i + a + 1))" and l: "int j \<le> lpf"
    using n by (auto simp: py_range_def)
  from heapify_scan_ties_last[OF tp s dj m l] tie show "j \<le> t" unfolding t by blast
qed

text \<open>
  For comparison: under a strict comparator (the priority queue's default
  \<^verbatim>\<open>lambda u, v: u < v\<close>) the scan keeps its choice on a tie, so the lowest-index child
  among the tied ones is the one selected.
\<close>

lemma heapify_scan_strict:
  fixes xs :: "('k::linorder, 'v) TreeNode list" and lpf :: int
  defines "sc \<equiv> heapify_scan (\<lambda>u v. u < v) lpf xs"
  shows "sorted js \<Longrightarrow> distinct js \<Longrightarrow>
     (sc js t = t \<or> (sc js t \<in> set js \<and> key (xs ! sc js t) < key (xs ! t))) \<and>
     (\<forall>j\<in>set js. int j \<le> lpf \<longrightarrow> key (xs ! sc js t) \<le> key (xs ! j)) \<and>
     (sc js t \<noteq> t \<longrightarrow>
        (\<forall>j\<in>set js. int j \<le> lpf \<and> key (xs ! j) \<le> key (xs ! sc js t) \<longrightarrow> sc js t \<le> j))"
proof (induction js arbitrary: t)
  case Nil
  show ?case by (simp add: sc_def)
next
  case (Cons j js)
  from Cons.prems have s: "sorted js" and dj: "distinct js" by simp_all
  from Cons.prems have "\<forall>i\<in>set js. j \<le> i" and "j \<notin> set js" by simp_all
  then have lo: "\<forall>i\<in>set js. j < i" by (metis le_neq_implies_less)
  show ?case
  proof (cases "int j \<le> lpf")
    case False
    with Cons.prems(1) have "\<forall>i\<in>set (j # js). \<not> int i \<le> lpf" by auto
    with False show ?thesis by (simp add: sc_def)
  next
    case True
    let ?t = "if key (xs ! j) < key (xs ! t) then j else t"
    let ?r = "sc js ?t"
    have req: "sc (j # js) t = ?r" using True by (simp add: sc_def)
    note ih = Cons.IH[OF s dj, of ?t]
    from ih have a: "?r = ?t \<or> (?r \<in> set js \<and> key (xs ! ?r) < key (xs ! ?t))"
      and b: "\<forall>i\<in>set js. int i \<le> lpf \<longrightarrow> key (xs ! ?r) \<le> key (xs ! i)"
      and c: "?r \<noteq> ?t \<longrightarrow> (\<forall>i\<in>set js. int i \<le> lpf \<and> key (xs ! i) \<le> key (xs ! ?r) \<longrightarrow> ?r \<le> i)"
      by blast+
    show ?thesis
    proof (cases "key (xs ! j) < key (xs ! t)")
      case lt: True
      then have t': "?t = j" by simp
      from a t' have rj: "key (xs ! ?r) \<le> key (xs ! j)" by auto
      have 1: "?r = t \<or> (?r \<in> set (j # js) \<and> key (xs ! ?r) < key (xs ! t))"
        using a t' lt by auto
      have 2: "\<forall>i\<in>set (j # js). int i \<le> lpf \<longrightarrow> key (xs ! ?r) \<le> key (xs ! i)"
        using b rj by simp
      have 3: "\<forall>i\<in>set (j # js). int i \<le> lpf \<and> key (xs ! i) \<le> key (xs ! ?r) \<longrightarrow> ?r \<le> i"
      proof (cases "?r = j")
        case True
        then show ?thesis using lo by auto
      next
        case False
        with a t' have "key (xs ! ?r) < key (xs ! j)" by auto
        moreover from c False t' have
          "\<forall>i\<in>set js. int i \<le> lpf \<and> key (xs ! i) \<le> key (xs ! ?r) \<longrightarrow> ?r \<le> i" by simp
        ultimately show ?thesis by auto
      qed
      from 1 2 3 show ?thesis unfolding req by blast
    next
      case nlt: False
      then have t': "?t = t" by simp
      have 1: "?r = t \<or> (?r \<in> set (j # js) \<and> key (xs ! ?r) < key (xs ! t))"
        using a t' by auto
      from a t' have rt: "key (xs ! ?r) \<le> key (xs ! t)" by auto
      with nlt have rj: "key (xs ! ?r) \<le> key (xs ! j)" by auto
      have 2: "\<forall>i\<in>set (j # js). int i \<le> lpf \<longrightarrow> key (xs ! ?r) \<le> key (xs ! i)"
        using b rj by simp
      have 3: "?r \<noteq> t \<longrightarrow>
          (\<forall>i\<in>set (j # js). int i \<le> lpf \<and> key (xs ! i) \<le> key (xs ! ?r) \<longrightarrow> ?r \<le> i)"
      proof
        assume ne: "?r \<noteq> t"
        with a t' have "key (xs ! ?r) < key (xs ! t)" by auto
        with nlt have "key (xs ! ?r) < key (xs ! j)" by auto
        moreover from c ne t' have
          "\<forall>i\<in>set js. int i \<le> lpf \<and> key (xs ! i) \<le> key (xs ! ?r) \<longrightarrow> ?r \<le> i" by simp
        ultimately show "\<forall>i\<in>set (j # js). int i \<le> lpf \<and> key (xs ! i) \<le> key (xs ! ?r) \<longrightarrow> ?r \<le> i"
          by auto
      qed
      from 1 2 3 show ?thesis unfolding req by blast
    qed
  qed
qed

text \<open>
  C5 (as amended).  During the sift-down step of extract and of the bulk build, at each
  level \<^verbatim>\<open>_heapify\<close> selects, among the node and its up-to-arity occupied children, one
  that most dominates under the comparator, and swaps with it when it is a child; when
  two or more children tie for most dominating, the highest-index child among them is
  selected (the comparators \<open>\<le>\<close> and \<open>\<ge>\<close> hold on equal keys, so the left-to-right scan
  moves on to every later child that ties).
\<close>

theorem heapify_selects_last_most_dominating:
  fixes xs :: "('k::linorder, 'v) TreeNode list" and a i :: nat
  assumes n: "lpf = int (length xs) - 1"
    and c: "cmp = (\<lambda>p c. p \<le> c) \<or> cmp = (\<lambda>p c. p \<ge> c)"
    and t: "t = heapify_scan cmp lpf xs (py_range (a * i + 1) (a * i + a + 1)) i"
  shows "heapify_loop cmp a lpf xs i =
           (if t \<noteq> i then heapify_loop cmp a lpf (heap_swap xs t i) t else xs) \<and>
         (t = i \<or> (a * i + 1 \<le> t \<and> t \<le> a * i + a \<and> t < length xs)) \<and>
         cmp (key (xs ! t)) (key (xs ! i)) \<and>
         (\<forall>j. a * i + 1 \<le> j \<and> j \<le> a * i + a \<and> j < length xs \<longrightarrow>
              cmp (key (xs ! t)) (key (xs ! j)) \<and>
              (key (xs ! j) = key (xs ! t) \<longrightarrow> j \<le> t))"
proof -
  from c have tp: "total_preorder cmp"
    using total_preorder_le total_preorder_ge by blast
  have l: "heapify_loop cmp a lpf xs i =
           (if t \<noteq> i then heapify_loop cmp a lpf (heap_swap xs t i) t else xs)"
    by (subst heapify_loop.simps) (simp add: Let_def t)
  have r: "cmp x x" for x by (rule total_preorder_refl[OF tp])
  from heapify_scan_selects[OF tp n t] l r show ?thesis by metis
qed

theorem heapify_selects_last_most_dominating_witness:
  "heapify_scan (\<lambda>p c. p \<le> c) 2 example_tie_nodes (py_range (2 * 0 + 1) (2 * 0 + 2 + 1)) 0 = 2 \<and>
   heapify_loop (\<lambda>p c. p \<le> c) 2 2 example_tie_nodes 0 =
     heapify_loop (\<lambda>p c. p \<le> c) 2 2 (heap_swap example_tie_nodes 2 0) 2 \<and>
   key (example_tie_nodes ! 1) = key (example_tie_nodes ! 2) \<and>
   key (example_tie_nodes ! 2) \<le> key (example_tie_nodes ! 0) \<and>
   key (example_tie_nodes ! 2) \<le> key (example_tie_nodes ! 1)"
proof -
  have n: "(2::int) = int (length example_tie_nodes) - 1"
    by (simp add: example_tie_nodes_def)
  have t: "(2::nat) =
      heapify_scan (\<lambda>p c. p \<le> c) 2 example_tie_nodes (py_range (2 * 0 + 1) (2 * 0 + 2 + 1)) 0"
    by (simp add: example_tie_nodes_def py_range_rec)
  from heapify_selects_last_most_dominating[OF n disjI1[OF refl] t] t
  show ?thesis by (simp add: example_tie_nodes_def)
qed

theorem lowest_index_tie_counterexample:
  "DHeap_extract example_tie_heap = Inr (\<lparr>key = 1, data = ''x''\<rparr>, example_tie_heap_after) \<and>
   heap example_tie_heap_after =
     [\<lparr>key = 5, data = ''c''\<rparr>, \<lparr>key = 5, data = ''b''\<rparr>, \<lparr>key = 7, data = ''a''\<rparr>] \<and>
   key (example_tie_nodes ! 1) = key (example_tie_nodes ! 2) \<and>
   key (example_tie_nodes ! 1) \<le> key (example_tie_nodes ! 0) \<and>
   heapify_scan (\<lambda>p c. p \<le> c) 2 example_tie_nodes (py_range 1 3) 0 = 2 \<and>
   heapify_scan (\<lambda>p c. p \<le> c) 2 example_tie_nodes (py_range 1 3) 0 \<noteq> 1"
  using example_tie_heap_extract
  by (simp add: example_tie_heap_after_def example_tie_nodes_def py_range_rec)

section \<open>Dijkstra's loop never fails on a well-formed graph\<close>










lemma fold_update_distinct:
  "distinct (map fst al) \<Longrightarrow> distinct (map fst (fold (\<lambda>v m. AList.update v (c v) m) vs al))"
  by (induction vs arbitrary: al) (simp_all add: distinct_update)






section \<open>Predecessors are recorded through positive edges only\<close>

lemma dijkstra_relax_pred:
  assumes r: "dijkstra_relax graph u st v = Inr st'"
    and p: "pred_via_positive_edges graph (dj_pred st)"
  shows "pred_via_positive_edges graph (dj_pred st')"
proof (cases "map_of (edge_weights graph) (u @ ''_'' @ v)")
  case None
  with r have "st' = st" by (simp add: dijkstra_relax_def)
  with p show ?thesis by simp
next
  case (Some edge)
  show ?thesis
  proof (cases "0 < edge_value edge")
    case False
    with r Some have "st' = st" by (simp add: dijkstra_relax_def)
    with p show ?thesis by simp
  next
    case True
    from r Some True
    have "dj_pred st' = dj_pred st \<or> dj_pred st' = AList.update v (Some u) (dj_pred st)"
      by (auto simp add: dijkstra_relax_def Let_def split: sum.splits if_splits)
    then show ?thesis
    proof
      assume "dj_pred st' = dj_pred st"
      with p show ?thesis by simp
    next
      assume e: "dj_pred st' = AList.update v (Some u) (dj_pred st)"
      show ?thesis
        unfolding pred_via_positive_edges_def e update_conv'
      proof (intro allI impI)
        fix v' u'
        assume m: "((map_of (dj_pred st))(v \<mapsto> Some u)) v' = Some (Some u')"
        show "\<exists>edge. map_of (edge_weights graph) (u' @ ''_'' @ v') = Some edge \<and> 0 < edge_value edge"
        proof (cases "v' = v")
          case True
          with m have "u' = u" by simp
          with True Some \<open>0 < edge_value edge\<close> show ?thesis by simp
        next
          case False
          with m have "map_of (dj_pred st) v' = Some (Some u')" by simp
          with p show ?thesis unfolding pred_via_positive_edges_def by blast
        qed
      qed
    qed
  qed
qed

lemma dijkstra_relax_all_pred:
  "dijkstra_relax_all graph u st vs = Inr st' \<Longrightarrow>
   pred_via_positive_edges graph (dj_pred st) \<Longrightarrow> pred_via_positive_edges graph (dj_pred st')"
proof (induction vs arbitrary: st)
  case Nil
  then show ?case by simp
next
  case (Cons v vs)
  from Cons.prems(1) obtain st1 where r1: "dijkstra_relax graph u st v = Inr st1"
    and r2: "dijkstra_relax_all graph u st1 vs = Inr st'"
    by (auto split: sum.splits)
  from Cons.IH[OF r2 dijkstra_relax_pred[OF r1 Cons.prems(2)]] show ?case .
qed

lemma dijkstra_main_pred:
  "dijkstra_main graph st n = Inr st' \<Longrightarrow>
   pred_via_positive_edges graph (dj_pred st) \<Longrightarrow> pred_via_positive_edges graph (dj_pred st')"
proof (induction n arbitrary: st)
  case 0
  then show ?case by simp
next
  case (Suc n)
  from Suc.prems(1) obtain u pq' st2 where "pop (dj_pq st) = Inr (u, pq')"
    and r: "dijkstra_relax_all graph u
              (st\<lparr>dj_pq := pq', dj_visited := AList.update u True (dj_visited st)\<rparr>)
              (vertices graph) = Inr st2"
    and m: "dijkstra_main graph st2 n = Inr st'"
    by (auto split: sum.splits prod.splits)
  from dijkstra_relax_all_pred[OF r] Suc.prems(2)
  have "pred_via_positive_edges graph (dj_pred st2)" by simp
  from Suc.IH[OF m this] show ?case .
qed

lemma fold_update_None:
  "map_of (fold (\<lambda>v m. AList.update v None m) vs al) x = Some (Some y) \<Longrightarrow>
   map_of al x = Some (Some y)"
proof (induction vs arbitrary: al)
  case Nil
  then show ?case by simp
next
  case (Cons a vs)
  from Cons.prems have "map_of (fold (\<lambda>v m. AList.update v None m) vs (AList.update a None al)) x
      = Some (Some y)" by simp
  from Cons.IH[OF this] have "((map_of al)(a \<mapsto> None)) x = Some (Some y)"
    by (simp add: update_conv')
  then show ?case by (cases "x = a") simp_all
qed

lemma dijkstra_result_pred:
  assumes "dijkstra_adjacency_list graph start target = Inr res"
  shows "pred_via_positive_edges graph (result_pred res)"
proof -
  let ?pred = "fold (\<lambda>v m. AList.update v None m) (vertices graph) []"
  have p0: "pred_via_positive_edges graph ?pred"
    unfolding pred_via_positive_edges_def
  proof (intro allI impI)
    fix v u :: string
    assume "map_of ?pred v = Some (Some u)"
    from fold_update_None[OF this] have False by simp
    then show "\<exists>edge. map_of (edge_weights graph) (u @ ''_'' @ v) = Some edge \<and> 0 < edge_value edge" ..
  qed
  have main: "pred_via_positive_edges graph (dj_pred st)"
    if "dijkstra_main graph \<lparr>dj_visited = vis, dj_dist = dist, dj_pred = ?pred, dj_pq = pq\<rparr> n
          = Inr st" for vis dist pq n st
    using dijkstra_main_pred[OF that] p0 by simp
  from assms show ?thesis
    by (auto simp add: dijkstra_adjacency_list_def Let_def split: sum.splits if_splits
        dest: main)
qed

text \<open>
  C8.  An edge whose weight is zero or negative is never used for relaxation: the
  relaxation step for such an edge returns the state it was given, with no entry of
  \<^verbatim>\<open>dist\<close> or \<^verbatim>\<open>pred\<close> (nor the queue) changed, in whatever state the run is; and in
  the result of every run that returns, each recorded predecessor \<^verbatim>\<open>pred[v] = u\<close> has an
  edge \<^verbatim>\<open>u_v\<close> of strictly positive weight.
\<close>

theorem dijkstra_skips_nonpositive_edges:
  "(\<forall>u v st edge.
      map_of (edge_weights graph) (u @ ''_'' @ v) = Some edge \<and> edge_value edge \<le> 0 \<longrightarrow>
      dijkstra_relax graph u st v = Inr st) \<and>
   (\<forall>res. dijkstra_adjacency_list graph start target = Inr res \<longrightarrow>
      pred_via_positive_edges graph (result_pred res))"
proof (intro conjI allI impI)
  fix u v st edge
  assume "map_of (edge_weights graph) (u @ ''_'' @ v) = Some edge \<and> edge_value edge \<le> 0"
  then show "dijkstra_relax graph u st v = Inr st" by (simp add: dijkstra_relax_def)
next
  fix res assume "dijkstra_adjacency_list graph start target = Inr res"
  then show "pred_via_positive_edges graph (result_pred res)" by (rule dijkstra_result_pred)
qed

lemma example_graph_zero_run:
  "dijkstra_adjacency_list example_graph_zero ''A'' [] =
   Inr (AllDistances [(''B'', PInf), (''A'', Fin 0)] [(''A'', None), (''B'', None)])"
  by code_simp

theorem dijkstra_skips_nonpositive_edges_witness:
  "map_of (edge_weights example_graph_zero) (''A'' @ ''_'' @ ''B'') =
     Some \<lparr>edge_source = ''A'', edge_target = ''B'', edge_value = 0\<rparr> \<and>
   dijkstra_relax example_graph_zero ''A'' example_dijkstra_state ''B'' = Inr example_dijkstra_state \<and>
   dijkstra_adjacency_list example_graph_zero ''A'' [] =
     Inr (AllDistances [(''B'', PInf), (''A'', Fin 0)] [(''A'', None), (''B'', None)]) \<and>
   pred_via_positive_edges example_graph_zero [(''A'', None), (''B'', None)]"
proof -
  have e: "map_of (edge_weights example_graph_zero) (''A'' @ ''_'' @ ''B'') =
     Some \<lparr>edge_source = ''A'', edge_target = ''B'', edge_value = 0\<rparr>"
    by (simp add: example_graph_zero_def)
  note t = dijkstra_skips_nonpositive_edges[of example_graph_zero "''A''" "[]"]
  from t e have "dijkstra_relax example_graph_zero ''A'' example_dijkstra_state ''B'' =
      Inr example_dijkstra_state"
    by simp
  moreover from t example_graph_zero_run
  have "pred_via_positive_edges example_graph_zero [(''A'', None), (''B'', None)]"
    by force
  ultimately show ?thesis using e example_graph_zero_run by simp
qed

end
